theory Spec2Isabelle
  imports Main "HOL-Library.Word"
begin

section \<open>Data model\<close>

text \<open>
  A JavaScript string is a sequence of 16-bit code units. The cue object built by
  \<open>parseSrt\<close> has the fields \<open>index\<close>, \<open>startMs\<close>, \<open>endMs\<close> and \<open>text\<close>; the last
  one is named \<open>cueText\<close> here, after the local variable it is initialised from.
  The numbers of this program are integers held in IEEE doubles. They are modelled as
  \<open>int\<close>, and the arithmetic of \<open>timeToMs\<close> rounds every result to the nearest
  double (\<open>roundDouble\<close> below). A value past the largest double, which JavaScript
  turns into \<open>Infinity\<close> (hours of more than 308 digits), is outside this model.
\<close>

type_synonym jsstring = "16 word list"

record cue =
  index :: nat
  startMs :: int
  endMs :: int
  cueText :: jsstring

datatype jsError = TypeError

text \<open>ASCII text as code units, for writing documents and timestamps down.\<close>

definition ascii :: "string \<Rightarrow> jsstring" where
  "ascii s = map (\<lambda>c. of_nat (of_char c)) s"

abbreviation LF :: "16 word" where "LF \<equiv> 0x0A"
abbreviation CR :: "16 word" where "CR \<equiv> 0x0D"
abbreviation BOM :: "16 word" where "BOM \<equiv> 0xFEFF"

section \<open>Character classes\<close>

text \<open>\<open>\\d\<close> of a regular expression without the \<open>u\<close> flag: the ASCII digits.\<close>

definition isDigit :: "16 word \<Rightarrow> bool" where
  "isDigit c = (0x30 \<le> c \<and> c \<le> 0x39)"

text \<open>
  \<open>\\s\<close>, and the characters removed by \<open>trim\<close> and \<open>trimEnd\<close>: the white space and
  line terminator code points of ECMAScript.
\<close>

definition isWhiteSpace :: "16 word \<Rightarrow> bool" where
  "isWhiteSpace c =
    (c = 0x09 \<or> c = 0x0A \<or> c = 0x0B \<or> c = 0x0C \<or> c = 0x0D \<or> c = 0x20 \<or> c = 0xA0 \<or>
     c = 0x1680 \<or> (0x2000 \<le> c \<and> c \<le> 0x200A) \<or> c = 0x2028 \<or> c = 0x2029 \<or>
     c = 0x202F \<or> c = 0x205F \<or> c = 0x3000 \<or> c = 0xFEFF)"

text \<open>\<open>BIDI_MARKS_RE\<close>, \<open>ZERO_WIDTH_RE\<close> and \<open>WEIRD_SPACES_RE\<close>.\<close>

definition isBidiMark :: "16 word \<Rightarrow> bool" where
  "isBidiMark c =
    (c = 0x200E \<or> c = 0x200F \<or> (0x202A \<le> c \<and> c \<le> 0x202E) \<or> (0x2066 \<le> c \<and> c \<le> 0x2069))"

definition isZeroWidth :: "16 word \<Rightarrow> bool" where
  "isZeroWidth c = (c = 0x200B \<or> c = 0x200C \<or> c = 0x200D \<or> c = 0x2060 \<or> c = 0xFEFF)"

definition isWeirdSpace :: "16 word \<Rightarrow> bool" where
  "isWeirdSpace c =
    (c = 0xA0 \<or> c = 0x1680 \<or> c = 0x180E \<or> (0x2000 \<le> c \<and> c \<le> 0x200A) \<or>
     c = 0x202F \<or> c = 0x205F \<or> c = 0x3000)"

section \<open>String primitives\<close>

text \<open>\<open>s.replace(/[class]/g, "")\<close> and \<open>s.replace(/[class]/g, "x")\<close> for a single code unit \<open>x\<close>.\<close>

definition removeClass :: "(16 word \<Rightarrow> bool) \<Rightarrow> jsstring \<Rightarrow> jsstring" where
  "removeClass cls s = filter (\<lambda>c. \<not> cls c) s"

definition replaceClass :: "(16 word \<Rightarrow> bool) \<Rightarrow> 16 word \<Rightarrow> jsstring \<Rightarrow> jsstring" where
  "replaceClass cls x s = map (\<lambda>c. if cls c then x else c) s"

definition trimStart :: "jsstring \<Rightarrow> jsstring" where
  "trimStart s = dropWhile isWhiteSpace s"

definition trimEnd :: "jsstring \<Rightarrow> jsstring" where
  "trimEnd s = rev (dropWhile isWhiteSpace (rev s))"

definition trim :: "jsstring \<Rightarrow> jsstring" where
  "trim s = trimEnd (trimStart s)"

text \<open>\<open>s.includes(pat)\<close>: \<open>pat\<close> occurs somewhere in \<open>s\<close>.\<close>

fun strIncludes :: "jsstring \<Rightarrow> jsstring \<Rightarrow> bool" where
  "strIncludes [] pat = (pat = [])"
| "strIncludes (c # cs) pat = (take (length pat) (c # cs) = pat \<or> strIncludes cs pat)"

text \<open>\<open>lines.join(sep)\<close>.\<close>

fun join :: "jsstring \<Rightarrow> jsstring list \<Rightarrow> jsstring" where
  "join sep [] = []"
| "join sep [l] = l"
| "join sep (l # ls) = l @ sep @ join sep ls"

text \<open>\<open>block.split("\\n")\<close>: the pieces between line feeds; always at least one piece.\<close>

fun splitLinesAcc :: "jsstring \<Rightarrow> jsstring \<Rightarrow> jsstring list" where
  "splitLinesAcc acc [] = [rev acc]"
| "splitLinesAcc acc (c # cs) =
    (if c = LF then rev acc # splitLinesAcc [] cs else splitLinesAcc (c # acc) cs)"

definition splitLines :: "jsstring \<Rightarrow> jsstring list" where
  "splitLines s = splitLinesAcc [] s"

text \<open>
  \<open>s.split(/\\n{2,}/)\<close>: the scan cuts at every run of two or more line feeds, which the
  greedy quantifier consumes whole; a single line feed stays inside its piece.
\<close>

function splitBlocksAcc :: "jsstring \<Rightarrow> jsstring \<Rightarrow> jsstring list" where
  "splitBlocksAcc acc [] = [rev acc]"
| "splitBlocksAcc acc (c # cs) =
    (if c = LF \<and> take 1 cs = [LF]
     then rev acc # splitBlocksAcc [] (dropWhile (\<lambda>d. d = LF) cs)
     else splitBlocksAcc (c # acc) cs)"
  by pat_completeness auto
termination
  by (relation "measure (\<lambda>(acc, s). length s)")
     (auto intro: le_imp_less_Suc length_dropWhile_le)

definition splitBlocks :: "jsstring \<Rightarrow> jsstring list" where
  "splitBlocks s = splitBlocksAcc [] s"

text \<open>\<open>xs.findIndex(p)\<close>: the first index whose element satisfies \<open>p\<close>, or \<open>-1\<close>.\<close>

fun findIndex :: "('a \<Rightarrow> bool) \<Rightarrow> 'a list \<Rightarrow> int" where
  "findIndex p [] = - 1"
| "findIndex p (x # xs) =
    (if p x then 0 else (let i = findIndex p xs in if i = - 1 then - 1 else i + 1))"

text \<open>
  \<open>xs[i]\<close>: an index outside the array reads \<open>undefined\<close>, here \<open>None\<close>.
\<close>

definition elemAt :: "'a list \<Rightarrow> int \<Rightarrow> 'a option" where
  "elemAt xs i = (if 0 \<le> i \<and> i < int (length xs) then Some (xs ! nat i) else None)"

text \<open>
  A double holds 53 significant bits. A non-negative integer below \<open>2^53\<close> is a double;
  a larger one is rounded to the nearest integer with 53 significant bits, a tie going
  to the even one. \<open>bitLength n\<close> is the number of bits of \<open>n\<close>.
\<close>

function bitLength :: "int \<Rightarrow> nat" where
  "bitLength n = (if n \<le> 0 then 0 else Suc (bitLength (n div 2)))"
  by pat_completeness auto
termination
  by (relation "measure nat") auto

definition roundDouble :: "int \<Rightarrow> int" where
  "roundDouble n =
    (if n < 2 ^ 53 then n
     else
       (let e = bitLength n - 53; q = n div 2 ^ e; r = n mod 2 ^ e; half = 2 ^ (e - 1)
        in (if r > half \<or> (r = half \<and> odd q) then q + 1 else q) * 2 ^ e))"

text \<open>The operators \<open>*\<close> and \<open>+\<close> on such numbers.\<close>

definition mulD :: "int \<Rightarrow> int \<Rightarrow> int" where
  "mulD a b = roundDouble (a * b)"

definition addD :: "int \<Rightarrow> int \<Rightarrow> int" where
  "addD a b = roundDouble (a + b)"

text \<open>
  The value of a string of ASCII digits read in base ten, and \<open>Number(ds)\<close> on such a
  string, which is that value as a double; \<open>s.padEnd(n, "0")\<close>.
\<close>

definition digitValue :: "16 word \<Rightarrow> int" where
  "digitValue c = uint (c - 0x30)"

definition decimalValue :: "jsstring \<Rightarrow> int" where
  "decimalValue ds = foldl (\<lambda>a c. 10 * a + digitValue c) 0 ds"

definition Number :: "jsstring \<Rightarrow> int" where
  "Number ds = roundDouble (decimalValue ds)"

definition padEnd :: "nat \<Rightarrow> 16 word \<Rightarrow> jsstring \<Rightarrow> jsstring" where
  "padEnd n c s = s @ replicate (n - length s) c"

section \<open>Text normalizer\<close>

text \<open>
  The \<open>replace\<close> calls of \<open>normalizeTimeString\<close>, in the order of the source: the
  invisible marks, the odd spaces, the punctuation, the two digit ranges (the callback
  turns the digit's offset in its range into the ASCII digit), and all white space.
\<close>

definition replaceSteps :: "jsstring \<Rightarrow> jsstring" where
  "replaceSteps s0 =
    (let s1 = removeClass isZeroWidth (removeClass isBidiMark s0);
         s2 = replaceClass isWeirdSpace 0x20 s1;
         s3 = (replaceClass (\<lambda>c. c = 0x2236) 0x3A \<circ>
               replaceClass (\<lambda>c. c = 0xFE55) 0x3A \<circ>
               replaceClass (\<lambda>c. c = 0xFE13) 0x3A \<circ>
               replaceClass (\<lambda>c. c = 0xFF1A) 0x3A \<circ>
               replaceClass (\<lambda>c. c = 0xFE11) 0x2C \<circ>
               replaceClass (\<lambda>c. c = 0xFE10) 0x2C \<circ>
               replaceClass (\<lambda>c. c = 0xFF0C) 0x2C \<circ>
               removeClass (\<lambda>c. c = 0x066C) \<circ>
               replaceClass (\<lambda>c. c = 0x066B) 0x2C \<circ>
               replaceClass (\<lambda>c. c = 0x060C) 0x2C) s2;
         s4 = map (\<lambda>d. if 0x0660 \<le> d \<and> d \<le> 0x0669 then 0x30 + (d - 0x0660) else d) s3;
         s5 = map (\<lambda>d. if 0x06F0 \<le> d \<and> d \<le> 0x06F9 then 0x30 + (d - 0x06F0) else d) s4
     in removeClass isWhiteSpace s5)"

text \<open>
  \<open>normalizeTimeString(raw)\<close>; \<open>None\<close> is \<open>null\<close> or \<open>undefined\<close>, and the final call is
  \<open>trim\<close>.
\<close>

definition normalizeTimeString :: "jsstring option \<Rightarrow> jsstring" where
  "normalizeTimeString raw =
    (case raw of
       None \<Rightarrow> []
     | Some s0 \<Rightarrow> trim (replaceSteps s0))"

section \<open>Timestamps\<close>

text \<open>
  The pattern \<open>(\\d+):(\\d{2}):(\\d{2})[.,](\\d{1,3})\<close> matched at the head of a string.
  \<open>\\d+\<close> is greedy and the next thing the pattern wants is a colon, so giving
  digits back never helps: it takes the whole run. \<open>\\d{1,3}\<close> takes up to three
  digits; what follows in either pattern of the source is the end of the pattern or
  an arrow, which starts with no digit, so it too takes all it can. The result is the
  four groups, the matched text and the rest of the string.
\<close>

definition matchStamp ::
  "jsstring \<Rightarrow> ((jsstring \<times> jsstring \<times> jsstring \<times> jsstring) \<times> jsstring \<times> jsstring) option" where
  "matchStamp s =
    (let hh = takeWhile isDigit s in
     if hh = [] then None
     else
       (case dropWhile isDigit s of
          c1 # m1 # m2 # c2 # s1 # s2 # sep # r \<Rightarrow>
            (let frac = takeWhile isDigit (take 3 r) in
             if c1 = 0x3A \<and> isDigit m1 \<and> isDigit m2 \<and> c2 = 0x3A \<and> isDigit s1 \<and> isDigit s2 \<and>
                (sep = 0x2E \<or> sep = 0x2C) \<and> frac \<noteq> []
             then Some ((hh, [m1, m2], [s1, s2], frac),
                        hh @ [c1, m1, m2, c2, s1, s2, sep] @ frac,
                        drop (length frac) r)
             else None)
        | _ \<Rightarrow> None))"

definition timeToMs :: "jsstring option \<Rightarrow> int" where
  "timeToMs raw =
    (let t = normalizeTimeString raw in
     case matchStamp t of
       None \<Rightarrow> 0
     | Some ((g1, g2, g3, g4), _, _) \<Rightarrow>
        (let hh = Number g1; mm = Number g2; ss = Number g3;
             ms = Number (padEnd 3 0x30 g4)
         in addD (mulD (addD (mulD (addD (mulD hh 60) mm) 60) ss) 1000) ms))"

text \<open>The arrows \<open>-->\<close>, U+2014 \<open>>\<close> and U+2013 \<open>>\<close>.\<close>

definition arrow :: jsstring where "arrow = [0x2D, 0x2D, 0x3E]"
definition emArrow :: jsstring where "emArrow = [0x2014, 0x3E]"
definition enArrow :: jsstring where "enArrow = [0x2013, 0x3E]"

text \<open>\<open>(?:-->|U+2014>|U+2013>)\<close> at the head of a string: the rest after the arrow.\<close>

definition matchArrow :: "jsstring \<Rightarrow> jsstring option" where
  "matchArrow s =
    (if take 3 s = arrow then Some (drop 3 s)
     else if take 2 s = emArrow then Some (drop 2 s)
     else if take 2 s = enArrow then Some (drop 2 s)
     else None)"

text \<open>\<open>/-->|U+2014>|U+2013>/.test(l)\<close>.\<close>

definition testArrow :: "jsstring \<Rightarrow> bool" where
  "testArrow l = (strIncludes l arrow \<or> strIncludes l emArrow \<or> strIncludes l enArrow)"

text \<open>
  The timing pattern (stamp, arrow, stamp) at the head of a string, and the search
  of \<open>line.match\<close>, which tries every start position from the left.
\<close>

definition matchTimingHere :: "jsstring \<Rightarrow> (jsstring \<times> jsstring) option" where
  "matchTimingHere s =
    (case matchStamp s of
       None \<Rightarrow> None
     | Some (_, m1, r1) \<Rightarrow>
        (case matchArrow r1 of
           None \<Rightarrow> None
         | Some r2 \<Rightarrow>
            (case matchStamp r2 of
               None \<Rightarrow> None
             | Some (_, m2, _) \<Rightarrow> Some (m1, m2))))"

fun searchTiming :: "jsstring \<Rightarrow> (jsstring \<times> jsstring) option" where
  "searchTiming [] = None"
| "searchTiming (c # cs) =
    (case matchTimingHere (c # cs) of
       Some m \<Rightarrow> Some m
     | None \<Rightarrow> searchTiming cs)"

datatype timing = Timing (tStartMs: int) (tEndMs: int) (startRaw: jsstring) (endRaw: jsstring)
  (normalizedLine: jsstring)

text \<open>\<open>parseTimingLine(rawLine)\<close>; \<open>!rawLine\<close> holds for \<open>undefined\<close> and for the empty string.\<close>

definition parseTimingLine :: "jsstring option \<Rightarrow> timing option" where
  "parseTimingLine rawLine =
    (if rawLine = None \<or> rawLine = Some [] then None
     else
       (let line = normalizeTimeString rawLine in
        case searchTiming line of
          None \<Rightarrow> None
        | Some (m1, m2) \<Rightarrow>
            Some (Timing (timeToMs (Some m1)) (timeToMs (Some m2)) m1 m2 line)))"

section \<open>Cue parser\<close>

text \<open>The preprocessing of \<open>parseSrt\<close>: the three \<open>replace\<close> calls, then the blocks.\<close>

definition stripBom :: "jsstring \<Rightarrow> jsstring" where
  "stripBom s = (case s of c # r \<Rightarrow> if c = BOM then r else s | [] \<Rightarrow> [])"

fun replaceCrLf :: "jsstring \<Rightarrow> jsstring" where
  "replaceCrLf (a # b # r) =
    (if a = CR \<and> b = LF then LF # replaceCrLf r else a # replaceCrLf (b # r))"
| "replaceCrLf s = s"

definition srtBlocks :: "jsstring \<Rightarrow> jsstring list" where
  "srtBlocks srtText =
    (let normalized = replaceClass (\<lambda>c. c = CR) LF (replaceCrLf (stripBom srtText))
     in filter (\<lambda>b. b \<noteq> []) (map trim (splitBlocks normalized)))"

text \<open>Inside the loop: the lines of a block, and the index of its timing line.\<close>

definition blockLines :: "jsstring \<Rightarrow> jsstring list" where
  "blockLines block = map trimEnd (splitLines block)"

definition timeLineIdx :: "jsstring list \<Rightarrow> int" where
  "timeLineIdx lines =
    (let i = findIndex (\<lambda>l. strIncludes l arrow) lines
     in if i = - 1 then findIndex testArrow lines else i)"

text \<open>
  One pass of the \<open>for\<close> loop over a block: \<open>None\<close> is \<open>continue\<close>, \<open>Some\<close> the cue
  that is pushed, with the running \<open>cueIndex\<close>.
\<close>

definition blockCue :: "jsstring \<Rightarrow> nat \<Rightarrow> cue option" where
  "blockCue block cueIndex =
    (let lines = blockLines block; i = timeLineIdx lines in
     if i = - 1 then None
     else
       (case parseTimingLine (elemAt lines i) of
          None \<Rightarrow> None
        | Some tm \<Rightarrow>
            (let bodyLines = filter (\<lambda>l. length l > 0) (drop (nat (i + 1)) lines)
             in Some \<lparr>index = cueIndex, startMs = tStartMs tm, endMs = tEndMs tm,
                      cueText = trim (join [LF] bodyLines)\<rparr>)))"

fun scanBlocks :: "jsstring list \<Rightarrow> cue list \<Rightarrow> nat \<Rightarrow> cue list" where
  "scanBlocks [] cues cueIndex = cues"
| "scanBlocks (block # blocks) cues cueIndex =
    (case blockCue block cueIndex of
       None \<Rightarrow> scanBlocks blocks cues cueIndex
     | Some c \<Rightarrow> scanBlocks blocks (cues @ [c]) (cueIndex + 1))"

text \<open>
  \<open>cues.sort((a, b) => a.startMs - b.startMs)\<close>: \<open>Array.prototype.sort\<close> is stable,
  and the comparator orders by \<open>startMs\<close>. Then the re-indexing \<open>map\<close>.
\<close>

definition sortCues :: "cue list \<Rightarrow> cue list" where
  "sortCues cues = sort_key startMs cues"

definition reindex :: "cue list \<Rightarrow> cue list" where
  "reindex cues = map (\<lambda>(i, c). c\<lparr>index := i\<rparr>) (enumerate 0 cues)"

text \<open>The cues in block order, as they stand before the sort.\<close>

definition scannedCues :: "jsstring \<Rightarrow> cue list" where
  "scannedCues srtText = scanBlocks (srtBlocks srtText) [] 0"

text \<open>\<open>parseSrt(srtText)\<close>; \<open>!srtText\<close> holds for \<open>null\<close>, \<open>undefined\<close> and the empty string.\<close>

definition parseSrt :: "jsstring option \<Rightarrow> cue list" where
  "parseSrt srtText =
    (case srtText of
       None \<Rightarrow> []
     | Some t \<Rightarrow> if t = [] then [] else reindex (sortCues (scannedCues t)))"

text \<open>
  The same function with its throw sites written out: \<open>srtText.replace\<close> on \<open>null\<close>
  and the destructuring \<open>const { startMs, endMs } = timing\<close> on \<open>null\<close> throw a
  TypeError, unless the guard before them has returned or continued. \<open>Inl\<close> is a thrown
  error.
\<close>

definition blockStep :: "jsstring \<Rightarrow> nat \<Rightarrow> jsError + cue option" where
  "blockStep block cueIndex =
    (let lines = blockLines block; i = timeLineIdx lines in
     if i = - 1 then Inr None
     else
       (let timing = parseTimingLine (elemAt lines i) in
        if timing = None then Inr None
        else
          (case timing of
             None \<Rightarrow> Inl TypeError
           | Some tm \<Rightarrow>
               (let bodyLines = filter (\<lambda>l. length l > 0) (drop (nat (i + 1)) lines)
                in Inr (Some \<lparr>index = cueIndex, startMs = tStartMs tm, endMs = tEndMs tm,
                             cueText = trim (join [LF] bodyLines)\<rparr>)))))"

fun scanRun :: "jsstring list \<Rightarrow> cue list \<Rightarrow> nat \<Rightarrow> jsError + cue list" where
  "scanRun [] cues cueIndex = Inr cues"
| "scanRun (block # blocks) cues cueIndex =
    (case blockStep block cueIndex of
       Inl e \<Rightarrow> Inl e
     | Inr None \<Rightarrow> scanRun blocks cues cueIndex
     | Inr (Some c) \<Rightarrow> scanRun blocks (cues @ [c]) (cueIndex + 1))"

definition parseSrtRun :: "jsstring option \<Rightarrow> jsError + cue list" where
  "parseSrtRun srtText =
    (if srtText = None \<or> srtText = Some [] then Inr []
     else
       (case srtText of
          None \<Rightarrow> Inl TypeError
        | Some t \<Rightarrow>
            (case scanRun (srtBlocks t) [] 0 of
               Inl e \<Rightarrow> Inl e
             | Inr cues \<Rightarrow> Inr (reindex (sortCues cues)))))"

section \<open>Cue locator\<close>

text \<open>
  \<open>(lo + hi) >> 1\<close>: the left operand is converted to a signed 32-bit integer
  (wrapping modulo \<open>2^32\<close>) and shifted right arithmetically by one bit.
\<close>

definition toInt32 :: "int \<Rightarrow> int" where
  "toInt32 n = (n + 2 ^ 31) mod 2 ^ 32 - 2 ^ 31"

definition sar1 :: "int \<Rightarrow> int" where
  "sar1 n = toInt32 n div 2"

text \<open>
  The \<open>while (lo <= hi)\<close> loop of \<open>findCueIndex\<close>, with its three variables. Where
  \<open>cues[mid]\<close> is \<open>undefined\<close>, the property access \<open>c.startMs\<close> throws a TypeError.
  \<open>None\<close> is a loop that does not return.
\<close>

partial_function (option) findLoop ::
  "cue list \<Rightarrow> int \<Rightarrow> int \<Rightarrow> int \<Rightarrow> int \<Rightarrow> (jsError + int) option" where
  "findLoop cues positionMs lo hi best =
    (if lo \<le> hi then
       (let mid = sar1 (lo + hi) in
        case elemAt cues mid of
          None \<Rightarrow> Some (Inl TypeError)
        | Some c \<Rightarrow>
            if positionMs < startMs c then findLoop cues positionMs lo (mid - 1) best
            else if positionMs > endMs c then findLoop cues positionMs (mid + 1) hi mid
            else Some (Inr mid))
     else Some (Inr (max 0 (min best (int (length cues) - 1)))))"

text \<open>
  \<open>findCueIndex(cues, positionMs)\<close>. The guard \<open>!cues || cues.length === 0\<close> is the
  empty list here: a list is never \<open>null\<close>.
\<close>

definition findCueIndex :: "cue list \<Rightarrow> int \<Rightarrow> (jsError + int) option" where
  "findCueIndex cues positionMs =
    (if cues = [] then Some (Inr 0)
     else findLoop cues positionMs 0 (int (length cues) - 1) 0)"

declare findLoop.simps [code]

section \<open>Properties of cue sequences\<close>

text \<open>
  A cue contains a position when the position lies in \<open>[startMs, endMs]\<close>, both ends
  included. A sequence is in start order when \<open>startMs\<close> never decreases. Its intervals
  do not overlap when the interval \<open>[startMs, endMs]\<close> of each cue shares no point with
  that of any later cue, that is, of any other cue. It is well formed when \<open>startMs \<le> endMs\<close> in every cue; the parser does not
  check that.
\<close>

definition cueContains :: "cue \<Rightarrow> int \<Rightarrow> bool" where
  "cueContains c positionMs = (startMs c \<le> positionMs \<and> positionMs \<le> endMs c)"

definition sortedByStart :: "cue list \<Rightarrow> bool" where
  "sortedByStart cues = sorted_wrt (\<lambda>a b. startMs a \<le> startMs b) cues"

definition disjointIntervals :: "cue list \<Rightarrow> bool" where
  "disjointIntervals cues =
    sorted_wrt (\<lambda>a b. {startMs a..endMs a} \<inter> {startMs b..endMs b} = {}) cues"

definition wellFormed :: "cue list \<Rightarrow> bool" where
  "wellFormed cues = (\<forall>c \<in> set cues. startMs c \<le> endMs c)"

text \<open>
  What the search relies on: every cue ends before each later cue starts. It follows
  from the three properties above together (\<open>disjoint_endsBeforeLater\<close> below).
\<close>

definition endsBeforeLater :: "cue list \<Rightarrow> bool" where
  "endsBeforeLater cues = sorted_wrt (\<lambda>a b. endMs a < startMs b) cues"

text \<open>
  Sample sequences: three adjacent cues; three cues with a gap after the first; and two
  sequences in start order, with intervals that do not overlap, whose middle cue has
  \<open>startMs > endMs\<close> (an empty interval).
\<close>

definition span :: "nat \<Rightarrow> int \<Rightarrow> int \<Rightarrow> cue" where
  "span i a b = \<lparr>index = i, startMs = a, endMs = b, cueText = []\<rparr>"

definition adjacentCues :: "cue list" where
  "adjacentCues = [span 0 0 999, span 1 1000 1999, span 2 2000 2999]"

definition gappedCues :: "cue list" where
  "gappedCues = [span 0 0 999, span 1 1500 1999, span 2 2000 2999]"

definition invertedInside :: "cue list" where
  "invertedInside = [span 0 0 999, span 1 500 400, span 2 1000 1999]"

definition invertedInGap :: "cue list" where
  "invertedInGap = [span 0 0 999, span 1 1500 1200, span 2 2000 2999]"

section \<open>Properties of strings and of parsed cues\<close>

text \<open>
  The characters of a plain timestamp: ASCII digits, colon, comma, period, and white
  space.
\<close>

definition timeAlphabet :: "16 word \<Rightarrow> bool" where
  "timeAlphabet c = (isDigit c \<or> c = 0x3A \<or> c = 0x2C \<or> c = 0x2E \<or> isWhiteSpace c)"

text \<open>
  The timing pattern as the spec words it. A stamp is one or more digits, a colon, two
  digits, a colon, two digits, a period or comma, and one to three digits. An arrow is
  one of the three accepted glyph sequences; a string occurs in a line when the line
  is some text, the string, and some text. A line has an arrow variant when an arrow
  occurs in it, and has the timing pattern when a stamp, an arrow and a stamp occur in
  it one after the other.
\<close>

definition isStamp :: "jsstring \<Rightarrow> bool" where
  "isStamp s =
    (\<exists>hh mm ss sep frac.
       s = hh @ [0x3A] @ mm @ [0x3A] @ ss @ [sep] @ frac \<and>
       hh \<noteq> [] \<and> list_all isDigit hh \<and>
       length mm = 2 \<and> list_all isDigit mm \<and>
       length ss = 2 \<and> list_all isDigit ss \<and>
       (sep = 0x2E \<or> sep = 0x2C) \<and>
       1 \<le> length frac \<and> length frac \<le> 3 \<and> list_all isDigit frac)"

definition isArrow :: "jsstring \<Rightarrow> bool" where
  "isArrow a = (a = arrow \<or> a = emArrow \<or> a = enArrow)"

definition occursIn :: "jsstring \<Rightarrow> jsstring \<Rightarrow> bool" where
  "occursIn pat l = (\<exists>pre post. l = pre @ pat @ post)"

definition hasArrowVariant :: "jsstring \<Rightarrow> bool" where
  "hasArrowVariant l = (\<exists>pre a post. l = pre @ a @ post \<and> isArrow a)"

definition hasTimingPattern :: "jsstring \<Rightarrow> bool" where
  "hasTimingPattern s =
    (\<exists>pre st1 a st2 post. s = pre @ st1 @ a @ st2 @ post \<and> isStamp st1 \<and> isArrow a \<and> isStamp st2)"

text \<open>What a cue carries apart from its index.\<close>

definition payload :: "cue \<Rightarrow> int \<times> int \<times> jsstring" where
  "payload c = (startMs c, endMs c, cueText c)"

text \<open>
  Sample documents: one with a block that has no timing line, a block whose timing
  line has no fraction and a block whose timing line has no second stamp; one whose
  only block ends with its timing line; one with indented caption lines; and two whose
  second cue ends before it starts.
\<close>

definition skipDoc :: jsstring where
  "skipDoc = join [LF] (map ascii
    [''1'', ''Hello'', '''',
     ''2'', ''00:00:02,000 --> 00:00:04,000'', ''World'', '''',
     ''3'', ''00:00:05 --> 00:00:06'', ''Bad'', '''',
     ''4'', ''00:00:01,000 --> garbage'', ''Worse''])"

definition pauseDoc :: jsstring where
  "pauseDoc = join [LF] (map ascii [''1'', ''00:00:01,000 --> 00:00:02,000''])"

definition invertedInsideDoc :: jsstring where
  "invertedInsideDoc = join [LF] (map ascii
    [''1'', ''00:00:00,000 --> 00:00:00,999'', '''',
     ''2'', ''00:00:00,500 --> 00:00:00,400'', '''',
     ''3'', ''00:00:01,000 --> 00:00:01,999''])"

definition invertedInGapDoc :: jsstring where
  "invertedInGapDoc = join [LF] (map ascii
    [''1'', ''00:00:00,000 --> 00:00:00,999'', '''',
     ''2'', ''00:00:01,500 --> 00:00:01,200'', '''',
     ''3'', ''00:00:02,000 --> 00:00:02,999''])"

definition indentDoc :: jsstring where
  "indentDoc = join [LF] (map ascii [''1'', ''00:00:00,000 --> 00:00:01,000'', ''  Hi'', ''  there''])"

section \<open>The locator: proofs\<close>

lemma elemAt_in: "0 \<le> i \<Longrightarrow> i < int (length xs) \<Longrightarrow> elemAt xs i = Some (xs ! nat i)"
  by (simp add: elemAt_def)

lemma disjoint_endsBeforeLater:
  assumes "sortedByStart cues" and "wellFormed cues" and "disjointIntervals cues"
  shows "endsBeforeLater cues"
  unfolding endsBeforeLater_def sorted_wrt_iff_nth_less
proof (intro allI impI)
  fix i j assume ij: "i < j" "j < length cues"
  have s: "startMs (cues ! i) \<le> startMs (cues ! j)"
    using assms(1) ij by (simp add: sortedByStart_def sorted_wrt_iff_nth_less)
  have w: "startMs (cues ! j) \<le> endMs (cues ! j)"
    using assms(2) ij by (simp add: wellFormed_def)
  have d: "{startMs (cues ! i)..endMs (cues ! i)} \<inter> {startMs (cues ! j)..endMs (cues ! j)} = {}"
    using assms(3) ij by (simp add: disjointIntervals_def sorted_wrt_iff_nth_less)
  show "endMs (cues ! i) < startMs (cues ! j)"
  proof (rule ccontr)
    assume "\<not> endMs (cues ! i) < startMs (cues ! j)"
    then have "startMs (cues ! j) \<in>
        {startMs (cues ! i)..endMs (cues ! i)} \<inter> {startMs (cues ! j)..endMs (cues ! j)}"
      using s w by simp
    then show False using d by simp
  qed
qed

lemma sar1_half: "0 \<le> n \<Longrightarrow> n < 2 ^ 31 \<Longrightarrow> sar1 n = n div 2"
  by (simp add: sar1_def toInt32_def)


lemma findLoop_step:
  assumes "lo \<le> hi" "0 \<le> lo" "hi < int (length cues)" "length cues \<le> 2 ^ 30"
  defines "mid \<equiv> (lo + hi) div 2"
  shows "findLoop cues p lo hi best =
     (if p < startMs (cues ! nat mid) then findLoop cues p lo (mid - 1) best
      else if p > endMs (cues ! nat mid) then findLoop cues p (mid + 1) hi mid
      else Some (Inr mid))"
proof -
  have "lo + hi < 2 ^ 31" using assms by simp
  then have m: "sar1 (lo + hi) = mid" using assms by (simp add: sar1_half)
  have "0 \<le> mid" "mid < int (length cues)" using assms by simp_all
  then have e: "elemAt cues mid = Some (cues ! nat mid)" by (rule elemAt_in)
  show ?thesis
    by (subst findLoop.simps) (simp add: m e assms(1))
qed

lemma findLoop_exit:
  "hi < lo \<Longrightarrow> findLoop cues p lo hi best = Some (Inr (max 0 (min best (int (length cues) - 1))))"
  by (subst findLoop.simps) simp

lemma findLoop_in_range:
  assumes "0 \<le> lo" "hi < int (length cues)" "length cues \<le> 2 ^ 30"
    "0 \<le> best" "best < int (length cues)"
  shows "\<exists>i. findLoop cues p lo hi best = Some (Inr i) \<and> 0 \<le> i \<and> i < int (length cues)"
  using assms
proof (induction "nat (hi - lo + 1)" arbitrary: lo hi best rule: less_induct)
  case less
  show ?case
  proof (cases "lo \<le> hi")
    case False
    then show ?thesis using less.prems by (simp add: findLoop_exit)
  next
    case True
    define mid where "mid = (lo + hi) div 2"
    have b: "lo \<le> mid" "mid \<le> hi" using True by (simp_all add: mid_def)
    have st: "findLoop cues p lo hi best =
     (if p < startMs (cues ! nat mid) then findLoop cues p lo (mid - 1) best
      else if p > endMs (cues ! nat mid) then findLoop cues p (mid + 1) hi mid
      else Some (Inr mid))"
      unfolding mid_def using True less.prems by (intro findLoop_step) simp_all
    have l: "\<exists>i. findLoop cues p lo (mid - 1) best = Some (Inr i) \<and> 0 \<le> i \<and> i < int (length cues)"
      using less.prems b by (intro less.hyps) simp_all
    have r: "\<exists>i. findLoop cues p (mid + 1) hi mid = Some (Inr i) \<and> 0 \<le> i \<and> i < int (length cues)"
      using less.prems b by (intro less.hyps) simp_all
    show ?thesis using l r b less.prems by (simp add: st)
  qed
qed



lemma findLoop_found:
  assumes "sortedByStart cues" "endsBeforeLater cues" "length cues \<le> 2 ^ 30"
    "0 \<le> lo" "hi < int (length cues)" "lo \<le> int k" "int k \<le> hi"
    "cueContains (cues ! k) p"
  shows "findLoop cues p lo hi best = Some (Inr (int k))"
  using assms(4-7)
proof (induction "nat (hi - lo + 1)" arbitrary: lo hi best rule: less_induct)
  case less
  define mid where "mid = (lo + hi) div 2"
  have lh: "lo \<le> hi" using less.prems by simp
  have b: "lo \<le> mid" "mid \<le> hi" using lh by (simp_all add: mid_def)
  have kl: "k < length cues" using less.prems by simp
  have ml: "nat mid < length cues" using b less.prems by simp
  have st: "findLoop cues p lo hi best =
     (if p < startMs (cues ! nat mid) then findLoop cues p lo (mid - 1) best
      else if p > endMs (cues ! nat mid) then findLoop cues p (mid + 1) hi mid
      else Some (Inr mid))"
    unfolding mid_def using lh less.prems assms(3) by (intro findLoop_step) simp_all
  have ck: "startMs (cues ! k) \<le> p" "p \<le> endMs (cues ! k)"
    using assms(8) by (simp_all add: cueContains_def)
  show ?case
  proof (cases "p < startMs (cues ! nat mid)")
    case True
    have "int k < mid"
    proof (rule ccontr)
      assume "\<not> int k < mid"
      then have "nat mid \<le> k" by simp
      then have "startMs (cues ! nat mid) \<le> startMs (cues ! k)"
        using assms(1) kl unfolding sortedByStart_def
        by (cases "nat mid = k") (auto simp: sorted_wrt_iff_nth_less)
      then show False using True ck by simp
    qed
    then have "findLoop cues p lo (mid - 1) best = Some (Inr (int k))"
      using less.prems b by (intro less.hyps) simp_all
    then show ?thesis using True by (simp add: st)
  next
    case False
    show ?thesis
    proof (cases "p > endMs (cues ! nat mid)")
      case True
      have "mid < int k"
      proof (rule ccontr)
        assume n: "\<not> mid < int k"
        have "nat mid \<noteq> k" using True ck by auto
        then have "k < nat mid" using n by simp
        then have "endMs (cues ! k) < startMs (cues ! nat mid)"
          using assms(2) ml unfolding endsBeforeLater_def
          by (simp add: sorted_wrt_iff_nth_less)
        then show False using False ck by simp
      qed
      then have "findLoop cues p (mid + 1) hi mid = Some (Inr (int k))"
        using less.prems b by (intro less.hyps) simp_all
      then show ?thesis using True False by (simp add: st)
    next
      case nr: False
      have "nat mid = k"
      proof (rule ccontr)
        assume ne: "nat mid \<noteq> k"
        show False
        proof (cases "nat mid < k")
          case True
          then have "endMs (cues ! nat mid) < startMs (cues ! k)"
            using assms(2) kl unfolding endsBeforeLater_def
            by (simp add: sorted_wrt_iff_nth_less)
          then show False using nr ck by simp
        next
          case False
          then have "k < nat mid" using ne by simp
          then have "endMs (cues ! k) < startMs (cues ! nat mid)"
            using assms(2) ml unfolding endsBeforeLater_def
            by (simp add: sorted_wrt_iff_nth_less)
          then show False using \<open>\<not> p < startMs (cues ! nat mid)\<close> ck by simp
        qed
      qed
      then have "mid = int k" using b less.prems by simp
      then show ?thesis using False nr by (simp add: st)
    qed
  qed
qed



lemma findLoop_gap:
  assumes "sortedByStart cues" "endsBeforeLater cues" "wellFormed cues"
    "length cues \<le> 2 ^ 30" "\<forall>c \<in> set cues. \<not> cueContains c p"
    "0 \<le> lo" "hi < int (length cues)" "lo \<le> hi + 1" "best = max 0 (lo - 1)"
    "\<forall>j. int j < lo \<longrightarrow> endMs (cues ! j) < p"
    "\<forall>j < length cues. hi < int j \<longrightarrow> p < startMs (cues ! j)"
    "cues \<noteq> []"
  shows "\<exists>r. findLoop cues p lo hi best = Some (Inr r) \<and> 0 \<le> r \<and> r < int (length cues) \<and>
    (\<forall>j < length cues. endMs (cues ! j) < p \<longrightarrow> int j \<le> r \<and> endMs (cues ! nat r) < p) \<and>
    ((\<forall>j < length cues. p \<le> endMs (cues ! j)) \<longrightarrow> r = 0)"
  using assms(6-11)
proof (induction "nat (hi - lo + 1)" arbitrary: lo hi best rule: less_induct)
  case less
  have wf: "\<And>j. j < length cues \<Longrightarrow> startMs (cues ! j) \<le> endMs (cues ! j)"
    using assms(3) by (simp add: wellFormed_def)
  show ?case
  proof (cases "lo \<le> hi")
    case False
    then have lo: "lo = hi + 1" using less.prems by simp
    have bl: "best < int (length cues)" "0 \<le> best" using less.prems lo assms(12) by auto
    then have res: "findLoop cues p lo hi best = Some (Inr best)"
      using False by (simp add: findLoop_exit)
    have a: "int j \<le> best \<and> endMs (cues ! nat best) < p"
      if "j < length cues" "endMs (cues ! j) < p" for j
    proof -
      have "\<not> hi < int j" using less.prems(6) that wf[of j] by force
      then have jl: "int j < lo" using lo by simp
      then have "0 < lo" by simp
      then have b: "best = lo - 1" using less.prems by simp
      then have "int (nat best) < lo" using \<open>0 < lo\<close> by simp
      then have "endMs (cues ! nat best) < p" using less.prems(5) by blast
      then show ?thesis using jl b by simp
    qed
    have z: "best = 0" if "\<forall>j < length cues. p \<le> endMs (cues ! j)"
    proof (rule ccontr)
      assume "best \<noteq> 0"
      then have "0 < lo" "best = lo - 1" using less.prems by auto
      then have "int (nat best) < lo" "nat best < length cues" using bl by simp_all
      then have "endMs (cues ! nat best) < p" "p \<le> endMs (cues ! nat best)"
        using less.prems(5) that by blast+
      then show False by simp
    qed
    show ?thesis using res bl a z by simp
  next
    case True
    define mid where "mid = (lo + hi) div 2"
    have b: "lo \<le> mid" "mid \<le> hi" using True by (simp_all add: mid_def)
    have ml: "nat mid < length cues" using b less.prems by simp
    have st: "findLoop cues p lo hi best =
       (if p < startMs (cues ! nat mid) then findLoop cues p lo (mid - 1) best
        else if p > endMs (cues ! nat mid) then findLoop cues p (mid + 1) hi mid
        else Some (Inr mid))"
      unfolding mid_def using True less.prems assms(4) by (intro findLoop_step) simp_all
    have nc: "\<not> cueContains (cues ! nat mid) p" using assms(5) ml by simp
    show ?thesis
    proof (cases "p < startMs (cues ! nat mid)")
      case left: True
      have up: "\<forall>j < length cues. mid - 1 < int j \<longrightarrow> p < startMs (cues ! j)"
      proof (intro allI impI)
        fix j assume j: "j < length cues" "mid - 1 < int j"
        then have "nat mid \<le> j" by simp
        then have "startMs (cues ! nat mid) \<le> startMs (cues ! j)"
          using assms(1) j unfolding sortedByStart_def
          by (cases "nat mid = j") (auto simp: sorted_wrt_iff_nth_less)
        then show "p < startMs (cues ! j)" using left by simp
      qed
      have "\<exists>r. findLoop cues p lo (mid - 1) best = Some (Inr r) \<and> 0 \<le> r \<and> r < int (length cues) \<and>
        (\<forall>j < length cues. endMs (cues ! j) < p \<longrightarrow> int j \<le> r \<and> endMs (cues ! nat r) < p) \<and>
        ((\<forall>j < length cues. p \<le> endMs (cues ! j)) \<longrightarrow> r = 0)"
        using less.prems b up by (intro less.hyps) simp_all
      then show ?thesis using left by (simp add: st)
    next
      case nl: False
      then have right: "p > endMs (cues ! nat mid)" using nc by (simp add: cueContains_def)
      have dn: "\<forall>j. int j < mid + 1 \<longrightarrow> endMs (cues ! j) < p"
      proof (intro allI impI)
        fix j assume j: "int j < mid + 1"
        show "endMs (cues ! j) < p"
        proof (cases "j = nat mid")
          case True
          then show ?thesis using right by simp
        next
          case False
          then have "j < nat mid" using j by simp
          then have "endMs (cues ! j) < startMs (cues ! nat mid)"
            using assms(2) ml unfolding endsBeforeLater_def
            by (simp add: sorted_wrt_iff_nth_less)
          then show ?thesis using nl by simp
        qed
      qed
      have "\<exists>r. findLoop cues p (mid + 1) hi mid = Some (Inr r) \<and> 0 \<le> r \<and> r < int (length cues) \<and>
        (\<forall>j < length cues. endMs (cues ! j) < p \<longrightarrow> int j \<le> r \<and> endMs (cues ! nat r) < p) \<and>
        ((\<forall>j < length cues. p \<le> endMs (cues ! j)) \<longrightarrow> r = 0)"
        using less.prems b dn by (intro less.hyps) simp_all
      then show ?thesis using nl right by (simp add: st)
    qed
  qed
qed


text \<open>
  C9. On an empty cue sequence \<open>findCueIndex\<close> returns index 0, whatever the position.
\<close>

theorem findCueIndex_empty: "findCueIndex [] positionMs = Some (Inr 0)"
  by (simp add: findCueIndex_def)

text \<open>
  C10. On a non-empty cue list, sorted or not, and for every integer position,
  \<open>findCueIndex\<close> returns an index between 0 and \<open>length - 1\<close>. The list has at most
  \<open>2^30\<close> cues, so that \<open>lo + hi\<close> stays below \<open>2^31\<close>, where \<open>>> 1\<close> halves.
\<close>

theorem findCueIndex_in_bounds:
  assumes "cues \<noteq> []" and "length cues \<le> 2 ^ 30"
  shows "\<exists>i. findCueIndex cues positionMs = Some (Inr i) \<and> 0 \<le> i \<and> i \<le> int (length cues) - 1"
proof -
  have "\<exists>i. findLoop cues positionMs 0 (int (length cues) - 1) 0 = Some (Inr i) \<and>
      0 \<le> i \<and> i < int (length cues)"
    using assms by (intro findLoop_in_range) simp_all
  then show ?thesis using assms by (auto simp: findCueIndex_def)
qed

theorem findCueIndex_in_bounds_witness:
  "gappedCues \<noteq> [] \<and> length gappedCues \<le> 2 ^ 30 \<and>
   (\<exists>i. findCueIndex gappedCues (- 7) = Some (Inr i) \<and> 0 \<le> i \<and> i \<le> int (length gappedCues) - 1)"
  using findCueIndex_in_bounds [of gappedCues "- 7"] by (simp add: gappedCues_def)

text \<open>
  C1, as stated, fails: \<open>invertedInside\<close>, which \<open>parseSrt\<close> returns for
  \<open>invertedInsideDoc\<close>, is in start order and its intervals do not overlap (the middle
  one is empty), cue 0 contains position 700, and the search answers 1.
\<close>

theorem findCueIndex_containing_counterexample:
  "parseSrt (Some invertedInsideDoc) = invertedInside \<and>
   sortedByStart invertedInside \<and> disjointIntervals invertedInside \<and>
   cueContains (invertedInside ! 0) 700 \<and>
   findCueIndex invertedInside 700 = Some (Inr 1)"
proof -
  have "sortedByStart invertedInside" "disjointIntervals invertedInside"
    "cueContains (invertedInside ! 0) 700"
    by (simp_all add: invertedInside_def span_def sortedByStart_def disjointIntervals_def
        cueContains_def)
  moreover have "findCueIndex invertedInside 700 = Some (Inr 1)"
    by code_simp
  moreover have "parseSrt (Some invertedInsideDoc) = invertedInside"
    by code_simp
  ultimately show ?thesis by simp
qed

text \<open>
  C1, amended. On a well-formed cue sequence (\<open>startMs \<le> endMs\<close> in every cue) in start
  order whose intervals do not overlap, a position that lies in the interval of cue
  \<open>k\<close>, ends included, is located at \<open>k\<close>. The boundary case is the instance where the
  position is the \<open>endMs\<close> of a cue whose successor starts one millisecond later: the
  answer is that cue, not its successor.
\<close>

theorem findCueIndex_containing:
  assumes "sortedByStart cues" and "wellFormed cues" and "disjointIntervals cues"
    and "length cues \<le> 2 ^ 30"
    and "k < length cues" and "cueContains (cues ! k) positionMs"
  shows "findCueIndex cues positionMs = Some (Inr (int k))"
proof -
  have sep: "endsBeforeLater cues"
    using assms(1,2,3) by (rule disjoint_endsBeforeLater)
  have "findLoop cues positionMs 0 (int (length cues) - 1) 0 = Some (Inr (int k))"
    using assms sep by (intro findLoop_found) simp_all
  then show ?thesis using assms(5) by (auto simp: findCueIndex_def)
qed

theorem findCueIndex_containing_witness:
  "sortedByStart adjacentCues \<and> wellFormed adjacentCues \<and> disjointIntervals adjacentCues \<and>
   length adjacentCues \<le> 2 ^ 30 \<and>
   0 < length adjacentCues \<and> cueContains (adjacentCues ! 0) 999 \<and>
   endMs (adjacentCues ! 0) = startMs (adjacentCues ! 1) - 1 \<and>
   findCueIndex adjacentCues (endMs (adjacentCues ! 0)) = Some (Inr 0)"
proof -
  have h: "sortedByStart adjacentCues" "wellFormed adjacentCues" "disjointIntervals adjacentCues"
    "length adjacentCues \<le> 2 ^ 30" "0 < length adjacentCues"
    "cueContains (adjacentCues ! 0) 999"
    by (simp_all add: adjacentCues_def span_def sortedByStart_def wellFormed_def
        disjointIntervals_def cueContains_def)
  have v: "endMs (adjacentCues ! 0) = 999" "startMs (adjacentCues ! 1) = 1000"
    by (simp_all add: adjacentCues_def span_def)
  show ?thesis using findCueIndex_containing [OF h] h v by simp
qed

text \<open>
  C2, as stated, fails: \<open>invertedInGap\<close>, which \<open>parseSrt\<close> returns for
  \<open>invertedInGapDoc\<close>, is non-empty, in start order, its intervals do not overlap and
  none contains position 1300; cue 1 ends at 1200, before the position, and the search
  answers 0.
\<close>

theorem findCueIndex_gap_counterexample:
  "parseSrt (Some invertedInGapDoc) = invertedInGap \<and>
   invertedInGap \<noteq> [] \<and> sortedByStart invertedInGap \<and> disjointIntervals invertedInGap \<and>
   \<not> (\<exists>c \<in> set invertedInGap. cueContains c 1300) \<and>
   endMs (invertedInGap ! 1) < 1300 \<and>
   findCueIndex invertedInGap 1300 = Some (Inr 0)"
proof -
  have "invertedInGap \<noteq> []" "sortedByStart invertedInGap" "disjointIntervals invertedInGap"
    "\<not> (\<exists>c \<in> set invertedInGap. cueContains c 1300)" "endMs (invertedInGap ! 1) < 1300"
    by (simp_all add: invertedInGap_def span_def sortedByStart_def disjointIntervals_def
        cueContains_def)
  moreover have "findCueIndex invertedInGap 1300 = Some (Inr 0)"
    by code_simp
  moreover have "parseSrt (Some invertedInGapDoc) = invertedInGap"
    by code_simp
  ultimately show ?thesis by simp
qed

text \<open>
  C2, amended. On a non-empty, well-formed cue sequence (\<open>startMs \<le> endMs\<close> in every
  cue) in start order whose intervals do not overlap, a position that no cue contains
  is located at the last cue whose \<open>endMs\<close> is before the position, and at 0 when there
  is none; the result is an index of the sequence. A position after the last cue gives
  the last index, a position before the first cue gives 0.
\<close>

theorem findCueIndex_gap:
  assumes "cues \<noteq> []" and "sortedByStart cues" and "disjointIntervals cues" and "wellFormed cues"
    and "length cues \<le> 2 ^ 30" and "\<not> (\<exists>c \<in> set cues. cueContains c positionMs)"
  shows "\<exists>r. findCueIndex cues positionMs = Some (Inr r) \<and> 0 \<le> r \<and> r \<le> int (length cues) - 1 \<and>
    (\<forall>j < length cues. endMs (cues ! j) < positionMs \<longrightarrow>
        int j \<le> r \<and> endMs (cues ! nat r) < positionMs) \<and>
    ((\<forall>j < length cues. positionMs \<le> endMs (cues ! j)) \<longrightarrow> r = 0) \<and>
    (endMs (last cues) < positionMs \<longrightarrow> r = int (length cues) - 1) \<and>
    (positionMs < startMs (hd cues) \<longrightarrow> r = 0)"
proof -
  have sep: "endsBeforeLater cues"
    using assms(2,4,3) by (rule disjoint_endsBeforeLater)
  have "\<exists>r. findLoop cues positionMs 0 (int (length cues) - 1) 0 = Some (Inr r) \<and>
      0 \<le> r \<and> r < int (length cues) \<and>
      (\<forall>j < length cues. endMs (cues ! j) < positionMs \<longrightarrow>
          int j \<le> r \<and> endMs (cues ! nat r) < positionMs) \<and>
      ((\<forall>j < length cues. positionMs \<le> endMs (cues ! j)) \<longrightarrow> r = 0)"
    using assms sep by (intro findLoop_gap) simp_all
  then obtain r where r: "findLoop cues positionMs 0 (int (length cues) - 1) 0 = Some (Inr r)"
      "0 \<le> r" "r < int (length cues)"
      "\<forall>j < length cues. endMs (cues ! j) < positionMs \<longrightarrow>
          int j \<le> r \<and> endMs (cues ! nat r) < positionMs"
      "(\<forall>j < length cues. positionMs \<le> endMs (cues ! j)) \<longrightarrow> r = 0"
    by blast
  have res: "findCueIndex cues positionMs = Some (Inr r)"
    using r(1) assms(1) by (simp add: findCueIndex_def)
  have lst: "r = int (length cues) - 1" if "endMs (last cues) < positionMs"
  proof -
    have "endMs (cues ! (length cues - 1)) < positionMs"
      using that assms(1) by (simp add: last_conv_nth)
    then have "int (length cues - 1) \<le> r" using r(4) assms(1) by simp
    then show ?thesis using r(3) by simp
  qed
  have fst: "r = 0" if b: "positionMs < startMs (hd cues)"
  proof -
    have "positionMs \<le> endMs (cues ! j)" if j: "j < length cues" for j
    proof -
      have "startMs (cues ! 0) \<le> startMs (cues ! j)"
        using assms(2) j unfolding sortedByStart_def
        by (cases "j = 0") (auto simp: sorted_wrt_iff_nth_less)
      moreover have "startMs (cues ! j) \<le> endMs (cues ! j)"
        using assms(4) j by (simp add: wellFormed_def)
      ultimately show ?thesis using b assms(1) by (simp add: hd_conv_nth)
    qed
    then show ?thesis using r(5) by simp
  qed
  show ?thesis using res r(2,3,4,5) lst fst by auto
qed

theorem findCueIndex_gap_witness:
  "gappedCues \<noteq> [] \<and> sortedByStart gappedCues \<and> disjointIntervals gappedCues \<and>
   wellFormed gappedCues \<and> length gappedCues \<le> 2 ^ 30 \<and>
   \<not> (\<exists>c \<in> set gappedCues. cueContains c 1200) \<and>
   (\<exists>r. findCueIndex gappedCues 1200 = Some (Inr r) \<and> r = 0 \<and>
      (\<forall>j < length gappedCues. endMs (gappedCues ! j) < 1200 \<longrightarrow> int j \<le> r)) \<and>
   findCueIndex adjacentCues 1500 = Some (Inr 1) \<and>
   findCueIndex adjacentCues 50000 = Some (Inr 2)"
proof -
  have h: "gappedCues \<noteq> []" "sortedByStart gappedCues" "disjointIntervals gappedCues"
    "wellFormed gappedCues" "length gappedCues \<le> 2 ^ 30"
    "\<not> (\<exists>c \<in> set gappedCues. cueContains c 1200)"
    by (simp_all add: gappedCues_def span_def sortedByStart_def disjointIntervals_def
        wellFormed_def cueContains_def)
  have e: "findCueIndex gappedCues 1200 = Some (Inr 0)"
    by code_simp
  from findCueIndex_gap [OF h] obtain r where
    r: "findCueIndex gappedCues 1200 = Some (Inr r)"
      "\<forall>j < length gappedCues. endMs (gappedCues ! j) < 1200 \<longrightarrow> int j \<le> r"
    by blast
  from r(1) e have "r = 0" by simp
  moreover have "findCueIndex adjacentCues 1500 = Some (Inr 1)"
    "findCueIndex adjacentCues 50000 = Some (Inr 2)"
    by code_simp+
  ultimately show ?thesis using r h by blast
qed

section \<open>Timestamps: proofs\<close>

lemma colon_not_digit: "\<not> isDigit 0x3A"
  by (simp add: isDigit_def)

lemma takeWhile_frac:
  assumes "\<forall>c \<in> set frac. isDigit c" "length frac \<le> 3"
    "length frac = 3 \<or> rest = [] \<or> \<not> isDigit (hd rest)"
  shows "takeWhile isDigit (take 3 (frac @ rest)) = frac"
proof (cases "length frac = 3")
  case True
  then show ?thesis using assms(1) by simp
next
  case False
  then have r: "rest = [] \<or> \<not> isDigit (hd rest)" using assms(3) by simp
  have "takeWhile isDigit (take (3 - length frac) rest) = []"
    using r by (cases rest) (auto simp: take_Cons')
  then show ?thesis using assms(1,2) by (simp add: takeWhile_append2)
qed

lemma matchStamp_shape:
  assumes "hh \<noteq> []" "\<forall>c \<in> set hh. isDigit c"
    "length mm = 2" "\<forall>c \<in> set mm. isDigit c"
    "length ss = 2" "\<forall>c \<in> set ss. isDigit c"
    "sep = 0x2E \<or> sep = 0x2C"
    "frac \<noteq> []" "length frac \<le> 3" "\<forall>c \<in> set frac. isDigit c"
    "length frac = 3 \<or> rest = [] \<or> \<not> isDigit (hd rest)"
  shows "matchStamp (hh @ [0x3A] @ mm @ [0x3A] @ ss @ [sep] @ frac @ rest) =
    Some ((hh, mm, ss, frac), hh @ [0x3A] @ mm @ [0x3A] @ ss @ [sep] @ frac, rest)"
proof -
  obtain m1 m2 where mm: "mm = [m1, m2]"
    using assms(3) by (auto simp: length_Suc_conv numeral_2_eq_2)
  obtain s1 s2 where ss: "ss = [s1, s2]"
    using assms(5) by (auto simp: length_Suc_conv numeral_2_eq_2)
  have tw: "takeWhile isDigit (hh @ 0x3A # m1 # m2 # 0x3A # s1 # s2 # sep # frac @ rest) = hh"
    using assms(2) by (simp add: takeWhile_append2 colon_not_digit)
  have dw: "dropWhile isDigit (hh @ 0x3A # m1 # m2 # 0x3A # s1 # s2 # sep # frac @ rest)
      = 0x3A # m1 # m2 # 0x3A # s1 # s2 # sep # frac @ rest"
    using assms(2) by (simp add: dropWhile_append2 colon_not_digit)
  have fr: "takeWhile isDigit (take 3 (frac @ rest)) = frac"
    using assms(9,10,11) by (intro takeWhile_frac) simp_all
  show ?thesis
    unfolding matchStamp_def mm ss using assms(1,4,6,7,8) fr
    by (simp add: tw dw mm ss Let_def)
qed

lemma digitValue_nonneg: "0 \<le> digitValue c"
  by (simp add: digitValue_def)

lemma decimalValue_nonneg: "0 \<le> decimalValue ds"
proof -
  have "0 \<le> a \<Longrightarrow> 0 \<le> foldl (\<lambda>a c. 10 * a + digitValue c) a ds" for a
    by (induction ds arbitrary: a) (simp_all add: digitValue_nonneg)
  then show ?thesis by (simp add: decimalValue_def)
qed

lemma roundDouble_exact: "n < 2 ^ 53 \<Longrightarrow> roundDouble n = n"
  by (simp add: roundDouble_def)

text \<open>
  C3, as stated, fails: with 2502000000 hours and a fraction of \<open>001\<close> the formula
  gives 9007200000000001, which is no double, and \<open>timeToMs\<close> returns
  9007200000000000.
\<close>

theorem timeToMs_rounding_counterexample:
  "normalizeTimeString (Some (ascii ''2502000000:00:00,001''))
     = ascii ''2502000000'' @ [0x3A] @ ascii ''00'' @ [0x3A] @ ascii ''00'' @ [0x2C] @ ascii ''001'' \<and>
   ((decimalValue (ascii ''2502000000'') * 60 + decimalValue (ascii ''00'')) * 60
      + decimalValue (ascii ''00'')) * 1000 + decimalValue (ascii ''001'') = 9007200000000001 \<and>
   timeToMs (Some (ascii ''2502000000:00:00,001'')) = 9007200000000000"
  by code_simp

text \<open>
  C3, amended. When the normalized timestamp starts with hours (one or more digits), a
  colon, two minute digits, a colon, two second digits, a period or comma and a
  fraction of one to three digits (all the digits there are, up to three), and
  \<open>((hours * 60 + minutes) * 60 + seconds) * 1000\<close> plus the fraction padded with zeros on
  the right to three digits is below \<open>2^53\<close>, \<open>timeToMs\<close> returns that number.
\<close>

theorem timeToMs_formula:
  assumes "normalizeTimeString raw = hh @ [0x3A] @ mm @ [0x3A] @ ss @ [sep] @ frac @ rest"
    and "hh \<noteq> []" and "\<forall>c \<in> set hh. isDigit c"
    and "length mm = 2" and "\<forall>c \<in> set mm. isDigit c"
    and "length ss = 2" and "\<forall>c \<in> set ss. isDigit c"
    and "sep = 0x2E \<or> sep = 0x2C"
    and "1 \<le> length frac" and "length frac \<le> 3" and "\<forall>c \<in> set frac. isDigit c"
    and "length frac = 3 \<or> rest = [] \<or> \<not> isDigit (hd rest)"
    and "((decimalValue hh * 60 + decimalValue mm) * 60 + decimalValue ss) * 1000
      + decimalValue (frac @ replicate (3 - length frac) 0x30) < 2 ^ 53"
  shows "timeToMs raw =
    ((decimalValue hh * 60 + decimalValue mm) * 60 + decimalValue ss) * 1000
      + decimalValue (frac @ replicate (3 - length frac) 0x30)"
proof -
  define H where "H = decimalValue hh"
  define M where "M = decimalValue mm"
  define S where "S = decimalValue ss"
  define F where "F = decimalValue (frac @ replicate (3 - length frac) 0x30)"
  have nn: "0 \<le> H" "0 \<le> M" "0 \<le> S" "0 \<le> F"
    by (simp_all add: H_def M_def S_def F_def decimalValue_nonneg)
  have b: "((H * 60 + M) * 60 + S) * 1000 + F < 2 ^ 53"
    using assms(13) by (simp add: H_def M_def S_def F_def)
  have n: "Number hh = H" "Number mm = M" "Number ss = S"
    "Number (padEnd 3 0x30 frac) = F"
    using nn b by (simp_all add: Number_def padEnd_def roundDouble_exact
        flip: H_def M_def S_def F_def)
  have 1: "mulD H 60 = H * 60"
    using nn b by (simp add: mulD_def roundDouble_exact)
  have 2: "addD (H * 60) M = H * 60 + M"
    using nn b by (simp add: addD_def roundDouble_exact)
  have 3: "mulD (H * 60 + M) 60 = (H * 60 + M) * 60"
    using nn b by (simp add: mulD_def roundDouble_exact)
  have 4: "addD ((H * 60 + M) * 60) S = (H * 60 + M) * 60 + S"
    using nn b by (simp add: addD_def roundDouble_exact)
  have 5: "mulD ((H * 60 + M) * 60 + S) 1000 = ((H * 60 + M) * 60 + S) * 1000"
    using nn b by (simp add: mulD_def roundDouble_exact)
  have 6: "addD (((H * 60 + M) * 60 + S) * 1000) F = ((H * 60 + M) * 60 + S) * 1000 + F"
    using nn b by (simp add: addD_def roundDouble_exact)
  have "frac \<noteq> []" using assms(9) by auto
  then have "matchStamp (normalizeTimeString raw) =
      Some ((hh, mm, ss, frac), hh @ [0x3A] @ mm @ [0x3A] @ ss @ [sep] @ frac, rest)"
    unfolding assms(1) using assms(2-8,10-12) by (intro matchStamp_shape)
  then have "timeToMs raw = addD (mulD (addD (mulD (addD (mulD (Number hh) 60) (Number mm)) 60)
      (Number ss)) 1000) (Number (padEnd 3 0x30 frac))"
    by (simp add: timeToMs_def)
  also have "\<dots> = ((H * 60 + M) * 60 + S) * 1000 + F"
    by (simp only: n 1 2 3 4 5 6)
  finally show ?thesis by (simp only: H_def M_def S_def F_def)
qed

theorem timeToMs_formula_witness:
  "normalizeTimeString (Some (ascii ''00:00:00,5'')) = ascii ''00:00:00,5'' \<and>
   timeToMs (Some (ascii ''00:00:00,5'')) = 500 \<and>
   timeToMs (Some (ascii ''00:00:01,500'')) = 1500 \<and>
   timeToMs (Some (ascii ''01:00:00,000'')) = 3600000"
proof -
  have n: "normalizeTimeString (Some (ascii ''00:00:00,5''))
      = ascii ''00'' @ [0x3A] @ ascii ''00'' @ [0x3A] @ ascii ''00'' @ [0x2C] @ ascii ''5'' @ []"
    by code_simp
  have d: "\<forall>c \<in> set (ascii ''00''). isDigit c" "\<forall>c \<in> set (ascii ''5''). isDigit c"
    by (simp_all add: ascii_def isDigit_def)
  have v: "((decimalValue (ascii ''00'') * 60 + decimalValue (ascii ''00'')) * 60
      + decimalValue (ascii ''00'')) * 1000
      + decimalValue (ascii ''5'' @ replicate (3 - length (ascii ''5'')) 0x30) = 500"
    by code_simp
  have b: "((decimalValue (ascii ''00'') * 60 + decimalValue (ascii ''00'')) * 60
      + decimalValue (ascii ''00'')) * 1000
      + decimalValue (ascii ''5'' @ replicate (3 - length (ascii ''5'')) 0x30) < 2 ^ 53"
    unfolding v by simp
  have "timeToMs (Some (ascii ''00:00:00,5'')) = 500"
    using timeToMs_formula [OF n _ d(1) _ d(1) _ d(1) _ _ _ d(2) _ b] v
    by (simp add: ascii_def)
  moreover have "normalizeTimeString (Some (ascii ''00:00:00,5'')) = ascii ''00:00:00,5''"
    by code_simp
  moreover have "timeToMs (Some (ascii ''00:00:01,500'')) = 1500"
    by code_simp
  moreover have "timeToMs (Some (ascii ''01:00:00,000'')) = 3600000"
    by code_simp
  ultimately show ?thesis by simp
qed

section \<open>The normalizer: proofs\<close>

lemma digit_cases:
  assumes "isDigit c"
  shows "c \<in> {0x30, 0x31, 0x32, 0x33, 0x34, 0x35, 0x36, 0x37, 0x38, 0x39}"
proof -
  have "48 \<le> unat c" "unat c \<le> 57"
    using assms by (simp_all add: isDigit_def word_le_nat_alt)
  then have "unat c \<in> {48, 49, 50, 51, 52, 53, 54, 55, 56, 57}" by simp presburger
  then show ?thesis by (auto simp: word_unat_eq_iff)
qed

lemma enspace_cases:
  assumes "0x2000 \<le> c" "c \<le> 0x200A"
  shows "(c :: 16 word) \<in> {0x2000, 0x2001, 0x2002, 0x2003, 0x2004, 0x2005, 0x2006, 0x2007, 0x2008,
    0x2009, 0x200A}"
proof -
  have "8192 \<le> unat c" "unat c \<le> 8202"
    using assms by (simp_all add: word_le_nat_alt)
  then have "unat c \<in> {8192, 8193, 8194, 8195, 8196, 8197, 8198, 8199, 8200, 8201, 8202}"
    by simp presburger
  then show ?thesis by (auto simp: word_unat_eq_iff)
qed

lemma alphabet_cases:
  assumes "timeAlphabet c"
  shows "c \<in> {0x30, 0x31, 0x32, 0x33, 0x34, 0x35, 0x36, 0x37, 0x38, 0x39, 0x3A, 0x2C, 0x2E,
    0x09, 0x0A, 0x0B, 0x0C, 0x0D, 0x20, 0xA0, 0x1680,
    0x2000, 0x2001, 0x2002, 0x2003, 0x2004, 0x2005, 0x2006, 0x2007, 0x2008, 0x2009, 0x200A,
    0x2028, 0x2029, 0x202F, 0x205F, 0x3000, 0xFEFF}"
  using assms digit_cases[of c] enspace_cases[of c]
  unfolding timeAlphabet_def isWhiteSpace_def by blast


lemma trim_clean: "\<forall>c \<in> set s. \<not> isWhiteSpace c \<Longrightarrow> trim s = s"
proof -
  assume a: "\<forall>c \<in> set s. \<not> isWhiteSpace c"
  have 1: "dropWhile isWhiteSpace s = s" using a by (cases s) auto
  have 2: "dropWhile isWhiteSpace (rev s) = rev s" using a by (cases "rev s") auto
  show ?thesis by (simp add: trim_def trimStart_def trimEnd_def 1 2)
qed

lemma replaceSteps_append: "replaceSteps (a @ b) = replaceSteps a @ replaceSteps b"
  unfolding replaceSteps_def Let_def removeClass_def replaceClass_def o_def
  by (simp only: map_append filter_append)

lemma replaceSteps_Cons: "replaceSteps (c # s) = replaceSteps [c] @ replaceSteps s"
  using replaceSteps_append [of "[c]" s] by simp

lemma replaceSteps_alphabet_char:
  assumes "timeAlphabet c"
  shows "replaceSteps [c] = (if isWhiteSpace c then [] else [c])"
  using alphabet_cases [OF assms]
  unfolding replaceSteps_def Let_def removeClass_def replaceClass_def o_def
  by (elim insertE emptyE; hypsubst;
      simp add: isBidiMark_def isZeroWidth_def isWeirdSpace_def isWhiteSpace_def)

lemma replaceSteps_alphabet:
  assumes "\<forall>c \<in> set s. timeAlphabet c"
  shows "replaceSteps s = filter (\<lambda>c. \<not> isWhiteSpace c) s"
  using assms
proof (induction s)
  case Nil
  show ?case by code_simp
next
  case (Cons c s)
  then show ?case
    by (subst replaceSteps_Cons) (simp add: replaceSteps_alphabet_char)
qed

lemma normalize_alphabet:
  assumes "\<forall>c \<in> set s. timeAlphabet c"
  shows "normalizeTimeString (Some s) = filter (\<lambda>c. \<not> isWhiteSpace c) s"
proof -
  have "trim (filter (\<lambda>c. \<not> isWhiteSpace c) s) = filter (\<lambda>c. \<not> isWhiteSpace c) s"
    by (rule trim_clean) simp
  then show ?thesis
    using assms by (simp add: normalizeTimeString_def replaceSteps_alphabet)
qed

text \<open>
  C8. On a string built only from ASCII digits, colons, commas, periods and white
  space, \<open>normalizeTimeString\<close> is idempotent and its result holds no white space.
\<close>

theorem normalizeTimeString_idempotent:
  assumes "\<forall>c \<in> set x. timeAlphabet c"
  shows "normalizeTimeString (Some (normalizeTimeString (Some x))) = normalizeTimeString (Some x) \<and>
    \<not> (\<exists>c \<in> set (normalizeTimeString (Some x)). isWhiteSpace c)"
proof -
  have 1: "normalizeTimeString (Some x) = filter (\<lambda>c. \<not> isWhiteSpace c) x"
    using assms by (rule normalize_alphabet)
  have "\<forall>c \<in> set (filter (\<lambda>c. \<not> isWhiteSpace c) x). timeAlphabet c"
    using assms by simp
  then have 2: "normalizeTimeString (Some (filter (\<lambda>c. \<not> isWhiteSpace c) x))
      = filter (\<lambda>c. \<not> isWhiteSpace c) (filter (\<lambda>c. \<not> isWhiteSpace c) x)"
    by (rule normalize_alphabet)
  show ?thesis by (simp add: 1 2)
qed


theorem normalizeTimeString_idempotent_witness:
  "\<not> (\<exists>c \<in> set (ascii '' 00:01 :02,500 ''). \<not> timeAlphabet c) \<and>
   normalizeTimeString (Some (ascii '' 00:01 :02,500 '')) = ascii ''00:01:02,500'' \<and>
   normalizeTimeString (Some (normalizeTimeString (Some (ascii '' 00:01 :02,500 ''))))
     = normalizeTimeString (Some (ascii '' 00:01 :02,500 ''))"
proof -
  have h: "\<forall>c \<in> set (ascii '' 00:01 :02,500 ''). timeAlphabet c"
    by (simp add: ascii_def timeAlphabet_def isDigit_def isWhiteSpace_def)
  have e: "normalizeTimeString (Some (ascii '' 00:01 :02,500 '')) = ascii ''00:01:02,500''"
    by code_simp
  show ?thesis using normalizeTimeString_idempotent [OF h] h e by simp
qed

section \<open>The parser: proofs\<close>

lemma blockCue_index:
  "blockCue b n = map_option (\<lambda>c. c\<lparr>index := n\<rparr>) (blockCue b 0)"
  by (simp add: blockCue_def Let_def split: option.splits)

lemma blockCue_payload:
  "map_option payload (blockCue b n) = map_option payload (blockCue b 0)"
  by (subst blockCue_index) (cases "blockCue b 0"; simp add: payload_def)

lemma blockCue_None_iff: "blockCue b n = None \<longleftrightarrow> blockCue b 0 = None"
  by (subst blockCue_index) simp

lemma scanBlocks_acc: "scanBlocks bs acc n = acc @ scanBlocks bs [] n"
proof (induction bs arbitrary: acc n)
  case Nil
  show ?case by simp
next
  case (Cons b bs)
  show ?case
  proof (cases "blockCue b n")
    case None
    then show ?thesis using Cons.IH[of acc n] by simp
  next
    case (Some c)
    then show ?thesis using Cons.IH[of "acc @ [c]" "n + 1"] Cons.IH[of "[c]" "n + 1"] by simp
  qed
qed

lemma scanBlocks_payload:
  "map payload (scanBlocks bs [] n) = List.map_filter (\<lambda>b. map_option payload (blockCue b 0)) bs"
proof (induction bs arbitrary: n)
  case Nil
  show ?case by (simp add: List.map_filter_simps)
next
  case (Cons b bs)
  show ?case
  proof (cases "blockCue b n")
    case None
    then have "blockCue b 0 = None" using blockCue_None_iff by blast
    then show ?thesis using None Cons.IH[of n] by (simp add: List.map_filter_simps)
  next
    case (Some c)
    have "map_option payload (blockCue b 0) = Some (payload c)"
      using blockCue_payload[of b n] Some by simp
    then obtain c0 where c0: "blockCue b 0 = Some c0" "payload c0 = payload c" by auto
    show ?thesis
      using Some c0 Cons.IH[of "n + 1"] scanBlocks_acc[of bs "[c]" "n + 1"]
      by (simp add: List.map_filter_simps)
  qed
qed

lemma scanBlocks_length:
  "length (scanBlocks bs [] n) = length (filter (\<lambda>b. blockCue b 0 \<noteq> None) bs)"
proof -
  have "length (scanBlocks bs [] n) = length (map payload (scanBlocks bs [] n))" by simp
  also have "\<dots> = length (List.map_filter (\<lambda>b. map_option payload (blockCue b 0)) bs)"
    by (simp only: scanBlocks_payload)
  also have "\<dots> = length (filter (\<lambda>b. blockCue b 0 \<noteq> None) bs)"
    by (induction bs) (auto simp: List.map_filter_simps split: option.splits)
  finally show ?thesis .
qed

lemma reindex_length: "length (reindex xs) = length xs"
  by (simp add: reindex_def)

lemma reindex_nth: "i < length xs \<Longrightarrow> reindex xs ! i = (xs ! i)\<lparr>index := i\<rparr>"
  by (simp add: reindex_def nth_enumerate_eq)

lemma reindex_index: "map index (reindex xs) = [0..<length xs]"
  by (rule nth_equalityI) (simp_all add: reindex_length reindex_nth)

lemma reindex_payload: "map payload (reindex xs) = map payload xs"
  by (rule nth_equalityI) (simp_all add: reindex_length reindex_nth payload_def)

lemma reindex_startMs: "map startMs (reindex xs) = map startMs xs"
proof -
  have "map startMs (reindex xs) = map (fst \<circ> payload) (reindex xs)"
    by (simp add: payload_def comp_def)
  also have "\<dots> = map (fst \<circ> payload) xs"
    using reindex_payload[of xs] by (simp flip: map_map)
  finally show ?thesis by (simp add: payload_def comp_def)
qed

lemma srtBlocks_empty: "srtBlocks [] = []"
  by code_simp

lemma parseSrt_Some: "parseSrt (Some t) = reindex (sortCues (scannedCues t))"
  by (cases "t = []") (simp_all add: parseSrt_def scannedCues_def srtBlocks_empty sortCues_def reindex_def)

lemma filter_start_payload:
  "map payload (filter (\<lambda>c. startMs c = k) xs) = filter (\<lambda>p. fst p = k) (map payload xs)"
  by (induction xs) (simp_all add: payload_def)

text \<open>
  C4. For every input, the cues returned by \<open>parseSrt\<close> are in ascending order of
  \<open>startMs\<close>, the \<open>index\<close> fields are 0, 1, ... in output order, and the cues with a
  given \<open>startMs\<close> come in the order of the scan, which is the order of their blocks in
  the document.
\<close>

theorem parseSrt_sorted_stable_reindexed:
  "sorted (map startMs (parseSrt srtText)) \<and>
   map index (parseSrt srtText) = [0..<length (parseSrt srtText)] \<and>
   map payload (filter (\<lambda>c. startMs c = k) (parseSrt (Some t)))
     = map payload (filter (\<lambda>c. startMs c = k) (scannedCues t)) \<and>
   map payload (scannedCues t)
     = List.map_filter (\<lambda>b. map_option payload (blockCue b 0)) (srtBlocks t)"
proof -
  have s: "sorted (map startMs (parseSrt srtText))"
  proof (cases srtText)
    case None
    then show ?thesis by (simp add: parseSrt_def)
  next
    case (Some u)
    show ?thesis
      unfolding Some parseSrt_Some reindex_startMs sortCues_def by (rule sorted_sort_key)
  qed
  have i: "map index (parseSrt srtText) = [0..<length (parseSrt srtText)]"
  proof (cases srtText)
    case None
    then show ?thesis by (simp add: parseSrt_def)
  next
    case (Some u)
    show ?thesis
      unfolding Some parseSrt_Some by (simp add: reindex_index reindex_length)
  qed
  have "map payload (filter (\<lambda>c. startMs c = k) (parseSrt (Some t)))
      = filter (\<lambda>p. fst p = k) (map payload (sort_key startMs (scannedCues t)))"
    by (simp add: filter_start_payload parseSrt_Some reindex_payload sortCues_def)
  also have "\<dots> = map payload (filter (\<lambda>c. startMs c = k) (sort_key startMs (scannedCues t)))"
    by (simp add: filter_start_payload)
  also have "\<dots> = map payload (filter (\<lambda>c. startMs c = k) (scannedCues t))"
    by (simp only: sort_key_stable)
  finally have st: "map payload (filter (\<lambda>c. startMs c = k) (parseSrt (Some t)))
     = map payload (filter (\<lambda>c. startMs c = k) (scannedCues t))" .
  have o: "map payload (scannedCues t)
     = List.map_filter (\<lambda>b. map_option payload (blockCue b 0)) (srtBlocks t)"
    unfolding scannedCues_def by (rule scanBlocks_payload)
  show ?thesis using s i st o by blast
qed

lemma take_prefix_iff: "take (length pat) xs = pat \<longleftrightarrow> (\<exists>post. xs = pat @ post)"
proof
  assume "take (length pat) xs = pat"
  then have "xs = pat @ drop (length pat) xs"
    by (metis append_take_drop_id)
  then show "\<exists>post. xs = pat @ post" ..
next
  assume "\<exists>post. xs = pat @ post"
  then show "take (length pat) xs = pat" by auto
qed

lemma strIncludes_iff: "strIncludes s pat \<longleftrightarrow> (\<exists>pre post. s = pre @ pat @ post)"
proof (induction s)
  case Nil
  show ?case by auto
next
  case (Cons c cs)
  show ?case
  proof
    assume "strIncludes (c # cs) pat"
    then consider "take (length pat) (c # cs) = pat" | "strIncludes cs pat" by auto
    then show "\<exists>pre post. c # cs = pre @ pat @ post"
    proof cases
      case 1
      then obtain post where "c # cs = pat @ post" using take_prefix_iff by blast
      then have "c # cs = [] @ pat @ post" by simp
      then show ?thesis by blast
    next
      case 2
      then obtain pre post where "cs = pre @ pat @ post" using Cons.IH by blast
      then have "c # cs = (c # pre) @ pat @ post" by simp
      then show ?thesis by blast
    qed
  next
    assume "\<exists>pre post. c # cs = pre @ pat @ post"
    then obtain pre post where e: "c # cs = pre @ pat @ post" by blast
    show "strIncludes (c # cs) pat"
    proof (cases pre)
      case Nil
      then have "take (length pat) (c # cs) = pat" using e take_prefix_iff by auto
      then show ?thesis by simp
    next
      case (Cons d pre')
      then have "cs = pre' @ pat @ post" using e by simp
      then have "strIncludes cs pat" using Cons.IH by blast
      then show ?thesis by simp
    qed
  qed
qed

lemma testArrow_iff: "testArrow l \<longleftrightarrow> hasArrowVariant l"
  unfolding testArrow_def hasArrowVariant_def isArrow_def strIncludes_iff by blast

lemma isArrow_head: "isArrow a \<Longrightarrow> a \<noteq> [] \<and> \<not> isDigit (hd a)"
  by (auto simp: isArrow_def arrow_def emArrow_def enArrow_def isDigit_def)

lemma matchArrow_complete: "isArrow a \<Longrightarrow> matchArrow (a @ r) = Some r"
  by (auto simp: isArrow_def matchArrow_def arrow_def emArrow_def enArrow_def)

lemma matchArrow_sound: "matchArrow s = Some r \<Longrightarrow> \<exists>a. isArrow a \<and> s = a @ r"
proof -
  assume m: "matchArrow s = Some r"
  have t: "take n s = a \<Longrightarrow> s = a @ drop n s" for n a
    by (metis append_take_drop_id)
  from m consider "take 3 s = arrow" "r = drop 3 s" | "take 2 s = emArrow" "r = drop 2 s"
    | "take 2 s = enArrow" "r = drop 2 s"
    by (auto simp: matchArrow_def split: if_splits)
  then show ?thesis
  proof cases
    case 1
    then have "isArrow arrow \<and> s = arrow @ r" using t[of 3 arrow] by (simp add: isArrow_def)
    then show ?thesis by blast
  next
    case 2
    then have "isArrow emArrow \<and> s = emArrow @ r" using t[of 2 emArrow] by (simp add: isArrow_def)
    then show ?thesis by blast
  next
    case 3
    then have "isArrow enArrow \<and> s = enArrow @ r" using t[of 2 enArrow] by (simp add: isArrow_def)
    then show ?thesis by blast
  qed
qed

lemma matchStamp_sound:
  assumes "matchStamp s = Some (g, m, r)"
  shows "s = m @ r \<and> isStamp m"
proof -
  define hh where "hh = takeWhile isDigit s"
  have hne: "hh \<noteq> []"
    using assms by (auto simp: matchStamp_def hh_def Let_def split: if_splits)
  from assms obtain c1 m1 m2 c2 s1 s2 sep t where
    dw: "dropWhile isDigit s = c1 # m1 # m2 # c2 # s1 # s2 # sep # t"
    by (auto simp: matchStamp_def Let_def split: if_splits list.splits)
  define frac where "frac = takeWhile isDigit (take 3 t)"
  from assms dw have c: "c1 = 0x3A" "isDigit m1" "isDigit m2" "c2 = 0x3A" "isDigit s1" "isDigit s2"
    "sep = 0x2E \<or> sep = 0x2C" "frac \<noteq> []"
    and m: "m = hh @ [c1, m1, m2, c2, s1, s2, sep] @ frac" and r: "r = drop (length frac) t"
    by (auto simp: matchStamp_def Let_def hh_def frac_def split: if_splits)
  have fl: "length frac \<le> 3"
    unfolding frac_def using length_takeWhile_le[of isDigit "take 3 t"] by simp
  have fd: "list_all isDigit frac" "list_all isDigit hh"
    by (auto simp: frac_def hh_def list_all_iff dest: set_takeWhileD)
  have "take 3 t = frac @ dropWhile isDigit (take 3 t)"
    by (simp add: frac_def)
  then have "take (length frac) (take 3 t) = frac"
    by (metis append_eq_conv_conj)
  then have tf: "take (length frac) t = frac" using fl by (simp add: min_def)
  have "t = frac @ r" unfolding r using tf by (metis append_take_drop_id)
  moreover have "s = hh @ dropWhile isDigit s" by (simp add: hh_def)
  ultimately have s: "s = m @ r" using dw m by simp
  have "isStamp m"
    unfolding isStamp_def
    apply (rule exI[of _ hh], rule exI[of _ "[m1, m2]"], rule exI[of _ "[s1, s2]"],
        rule exI[of _ sep], rule exI[of _ frac])
    using c hne fd fl m by (cases frac) simp_all
  with s show ?thesis by simp
qed

lemma matchStamp_succeeds:
  assumes "isStamp st"
  shows "matchStamp (st @ rest) \<noteq> None"
proof -
  from assms obtain hh mm ss sep frac where
    st: "st = hh @ [0x3A] @ mm @ [0x3A] @ ss @ [sep] @ frac"
    and h: "hh \<noteq> []" "list_all isDigit hh" "length mm = 2" "list_all isDigit mm"
      "length ss = 2" "list_all isDigit ss" "sep = 0x2E \<or> sep = 0x2C"
      "1 \<le> length frac" "length frac \<le> 3" "list_all isDigit frac"
    unfolding isStamp_def by blast
  obtain m1 m2 where mm: "mm = [m1, m2]"
    using h(3) by (auto simp: length_Suc_conv numeral_2_eq_2)
  obtain s1 s2 where ss: "ss = [s1, s2]"
    using h(5) by (auto simp: length_Suc_conv numeral_2_eq_2)
  obtain f fs where fr: "frac = f # fs" using h(8) by (cases frac) auto
  have tw: "takeWhile isDigit (hh @ 0x3A # m1 # m2 # 0x3A # s1 # s2 # sep # frac @ rest) = hh"
    using h(2) by (simp add: takeWhile_append2 colon_not_digit list_all_iff)
  have dw: "dropWhile isDigit (hh @ 0x3A # m1 # m2 # 0x3A # s1 # s2 # sep # frac @ rest)
      = 0x3A # m1 # m2 # 0x3A # s1 # s2 # sep # frac @ rest"
    using h(2) by (simp add: dropWhile_append2 colon_not_digit list_all_iff)
  have ne: "takeWhile isDigit (take 3 (frac @ rest)) \<noteq> []"
    using h(10) by (simp add: fr)
  have dg: "isDigit m1" "isDigit m2" "isDigit s1" "isDigit s2"
    using h(4,6) by (simp_all add: mm ss)
  show ?thesis
    unfolding matchStamp_def st mm ss using h(1,7) ne dg
    by (simp add: tw dw Let_def)
qed

lemma matchStamp_before_arrow:
  assumes "isStamp st" "isArrow a"
  shows "\<exists>g. matchStamp (st @ a @ rest) = Some (g, st, a @ rest)"
proof -
  from assms obtain hh mm ss sep frac where
    st: "st = hh @ [0x3A] @ mm @ [0x3A] @ ss @ [sep] @ frac"
    and h: "hh \<noteq> []" "list_all isDigit hh" "length mm = 2" "list_all isDigit mm"
      "length ss = 2" "list_all isDigit ss" "sep = 0x2E \<or> sep = 0x2C"
      "1 \<le> length frac" "length frac \<le> 3" "list_all isDigit frac"
    unfolding isStamp_def by blast
  have hd: "\<not> isDigit (hd (a @ rest))"
    using isArrow_head[OF assms(2)] by simp
  have "frac \<noteq> []" using h(8) by auto
  then have "matchStamp (hh @ [0x3A] @ mm @ [0x3A] @ ss @ [sep] @ frac @ (a @ rest)) =
      Some ((hh, mm, ss, frac), hh @ [0x3A] @ mm @ [0x3A] @ ss @ [sep] @ frac, a @ rest)"
    using h hd by (intro matchStamp_shape) (simp_all add: list_all_iff)
  then show ?thesis by (simp add: st)
qed

lemma matchTimingHere_sound:
  assumes "matchTimingHere s = Some (m1, m2)"
  shows "\<exists>a post. s = m1 @ a @ m2 @ post \<and> isStamp m1 \<and> isArrow a \<and> isStamp m2"
proof -
  from assms obtain g1 r1 r2 g2 r3 where
    1: "matchStamp s = Some (g1, m1, r1)" and 2: "matchArrow r1 = Some r2"
    and 3: "matchStamp r2 = Some (g2, m2, r3)"
    by (auto simp: matchTimingHere_def split: option.splits)
  from matchStamp_sound[OF 1] have a: "s = m1 @ r1" "isStamp m1" by simp_all
  from matchArrow_sound[OF 2] obtain ar where b: "isArrow ar" "r1 = ar @ r2" by blast
  from matchStamp_sound[OF 3] have c: "r2 = m2 @ r3" "isStamp m2" by simp_all
  have "s = m1 @ ar @ m2 @ r3" using a(1) b(2) c(1) by simp
  then show ?thesis using a(2) b(1) c(2) by blast
qed

lemma matchTimingHere_complete:
  assumes "isStamp st1" "isArrow a" "isStamp st2"
  shows "matchTimingHere (st1 @ a @ st2 @ post) \<noteq> None"
proof -
  obtain g where 1: "matchStamp (st1 @ a @ st2 @ post) = Some (g, st1, a @ st2 @ post)"
    using matchStamp_before_arrow[OF assms(1,2)] by blast
  have 2: "matchArrow (a @ st2 @ post) = Some (st2 @ post)"
    using assms(2) by (rule matchArrow_complete)
  have "matchStamp (st2 @ post) \<noteq> None"
    using assms(3) by (rule matchStamp_succeeds)
  then obtain g2 m2 r3 where 3: "matchStamp (st2 @ post) = Some (g2, m2, r3)"
    by (cases "matchStamp (st2 @ post)") auto
  show ?thesis by (simp add: matchTimingHere_def 1 2 3)
qed

lemma searchTiming_iff: "searchTiming s \<noteq> None \<longleftrightarrow> hasTimingPattern s"
proof (induction s)
  case Nil
  have "\<not> isStamp []" by (simp add: isStamp_def)
  then have "\<not> hasTimingPattern []" by (auto simp: hasTimingPattern_def)
  then show ?case by simp
next
  case (Cons c cs)
  show ?case
  proof
    assume n: "searchTiming (c # cs) \<noteq> None"
    show "hasTimingPattern (c # cs)"
    proof (cases "matchTimingHere (c # cs)")
      case None
      then have "searchTiming cs \<noteq> None" using n by simp
      then have "hasTimingPattern cs" using Cons.IH by simp
      then obtain pre st1 a st2 post where
        "cs = pre @ st1 @ a @ st2 @ post" "isStamp st1" "isArrow a" "isStamp st2"
        unfolding hasTimingPattern_def by blast
      then have "c # cs = (c # pre) @ st1 @ a @ st2 @ post \<and> isStamp st1 \<and> isArrow a \<and> isStamp st2"
        by simp
      then show ?thesis unfolding hasTimingPattern_def by blast
    next
      case (Some m)
      obtain m1 m2 where "m = (m1, m2)" by (cases m)
      then obtain a post where
        "c # cs = m1 @ a @ m2 @ post" "isStamp m1" "isArrow a" "isStamp m2"
        using matchTimingHere_sound Some by blast
      then have "c # cs = [] @ m1 @ a @ m2 @ post \<and> isStamp m1 \<and> isArrow a \<and> isStamp m2"
        by simp
      then show ?thesis unfolding hasTimingPattern_def by blast
    qed
  next
    assume "hasTimingPattern (c # cs)"
    then obtain pre st1 a st2 post where
      e: "c # cs = pre @ st1 @ a @ st2 @ post" and p: "isStamp st1" "isArrow a" "isStamp st2"
      unfolding hasTimingPattern_def by blast
    show "searchTiming (c # cs) \<noteq> None"
    proof (cases pre)
      case Nil
      then have "matchTimingHere (c # cs) \<noteq> None"
        using e matchTimingHere_complete[OF p] by simp
      then show ?thesis by (cases "matchTimingHere (c # cs)") auto
    next
      case (Cons d pre')
      then have "cs = pre' @ st1 @ a @ st2 @ post" using e by simp
      then have "hasTimingPattern cs" using p unfolding hasTimingPattern_def by blast
      then have "searchTiming cs \<noteq> None" using Cons.IH by simp
      then show ?thesis by (cases "matchTimingHere (c # cs)") auto
    qed
  qed
qed

lemma parseTimingLine_None_iff:
  "parseTimingLine (Some l) = None \<longleftrightarrow> \<not> hasTimingPattern (normalizeTimeString (Some l))"
proof (cases "l = []")
  case True
  have "normalizeTimeString (Some []) = []" by code_simp
  moreover have "\<not> hasTimingPattern []" using searchTiming_iff[of "[]"] by simp
  ultimately show ?thesis using True by (simp add: parseTimingLine_def)
next
  case False
  then show ?thesis
    using searchTiming_iff[of "normalizeTimeString (Some l)"]
    by (auto simp: parseTimingLine_def Let_def split: option.splits)
qed

lemma findIndex_lower: "- 1 \<le> findIndex P xs"
  by (induction xs) (auto simp: Let_def)

lemma findIndex_none: "findIndex P xs = - 1 \<longleftrightarrow> \<not> (\<exists>x \<in> set xs. P x)"
proof (induction xs)
  case Nil
  show ?case by simp
next
  case (Cons x xs)
  have "findIndex P xs + 1 \<noteq> - 1"
    using findIndex_lower[of P xs] by simp
  then show ?case using Cons by (auto simp: Let_def)
qed

lemma findIndex_first:
  "findIndex P xs \<noteq> - 1 \<Longrightarrow>
   \<exists>i. findIndex P xs = int i \<and> i < length xs \<and> P (xs ! i) \<and> (\<forall>j < i. \<not> P (xs ! j))"
proof (induction xs)
  case Nil
  then show ?case by simp
next
  case (Cons x xs)
  show ?case
  proof (cases "P x")
    case True
    then show ?thesis by (intro exI[of _ 0]) simp
  next
    case False
    then have n: "findIndex P xs \<noteq> - 1" using Cons.prems by (auto simp: Let_def)
    then obtain i where i: "findIndex P xs = int i" "i < length xs" "P (xs ! i)"
      "\<forall>j < i. \<not> P (xs ! j)"
      using Cons.IH by blast
    have "findIndex P (x # xs) = int (Suc i)"
      using False n i(1) by (simp add: Let_def)
    moreover have "\<forall>j < Suc i. \<not> P ((x # xs) ! j)"
      using False i(4) by (auto simp: nth_Cons')
    ultimately show ?thesis using i(2,3) by (intro exI[of _ "Suc i"]) simp
  qed
qed

lemma timeLineIdx_none_iff:
  "timeLineIdx lines = - 1 \<longleftrightarrow> \<not> (\<exists>l \<in> set lines. hasArrowVariant l)"
proof -
  have "strIncludes l arrow \<Longrightarrow> testArrow l" for l
    by (simp add: testArrow_def)
  then show ?thesis
    by (auto simp: timeLineIdx_def Let_def findIndex_none testArrow_iff[symmetric])
qed

lemma timeLineIdx_line:
  assumes "timeLineIdx lines \<noteq> - 1"
  shows "\<exists>l. elemAt lines (timeLineIdx lines) = Some l \<and> hasArrowVariant l"
proof -
  let ?a = "findIndex (\<lambda>l. strIncludes l arrow) lines"
  show ?thesis
  proof (cases "?a = - 1")
    case True
    then have t: "timeLineIdx lines = findIndex testArrow lines"
      by (simp add: timeLineIdx_def)
    then have "findIndex testArrow lines \<noteq> - 1" using assms by simp
    then obtain i where "findIndex testArrow lines = int i" "i < length lines"
      "testArrow (lines ! i)"
      using findIndex_first by blast
    then show ?thesis using t by (simp add: elemAt_def testArrow_iff)
  next
    case False
    then have t: "timeLineIdx lines = ?a" by (simp add: timeLineIdx_def)
    obtain i where "?a = int i" "i < length lines" "strIncludes (lines ! i) arrow"
      using findIndex_first[OF False] by blast
    then show ?thesis using t by (simp add: elemAt_def testArrow_iff[symmetric] testArrow_def)
  qed
qed

lemma findIndex_iff:
  "findIndex P xs = int i \<longleftrightarrow> i < length xs \<and> P (xs ! i) \<and> (\<forall>j < i. \<not> P (xs ! j))"
proof
  assume a: "findIndex P xs = int i"
  then have "findIndex P xs \<noteq> - 1" by simp
  then obtain k where "findIndex P xs = int k" "k < length xs" "P (xs ! k)" "\<forall>j < k. \<not> P (xs ! j)"
    using findIndex_first by blast
  then show "i < length xs \<and> P (xs ! i) \<and> (\<forall>j < i. \<not> P (xs ! j))" using a by simp
next
  assume b: "i < length xs \<and> P (xs ! i) \<and> (\<forall>j < i. \<not> P (xs ! j))"
  then have "\<exists>x \<in> set xs. P x" by auto
  then have "findIndex P xs \<noteq> - 1" by (simp add: findIndex_none)
  then obtain k where k: "findIndex P xs = int k" "k < length xs" "P (xs ! k)" "\<forall>j < k. \<not> P (xs ! j)"
    using findIndex_first by blast
  have "\<not> k < i" using b k(3) by blast
  moreover have "\<not> i < k" using b k(4) by blast
  ultimately show "findIndex P xs = int i" using k(1) by simp
qed

lemma timeLineIdx_iff:
  "timeLineIdx lines = int i \<longleftrightarrow>
    i < length lines \<and>
    (if \<exists>l \<in> set lines. occursIn arrow l
     then occursIn arrow (lines ! i) \<and> (\<forall>j < i. \<not> occursIn arrow (lines ! j))
     else hasArrowVariant (lines ! i) \<and> (\<forall>j < i. \<not> hasArrowVariant (lines ! j)))"
proof -
  have o: "strIncludes l arrow \<longleftrightarrow> occursIn arrow l" for l
    by (simp add: strIncludes_iff occursIn_def)
  show ?thesis
  proof (cases "\<exists>l \<in> set lines. occursIn arrow l")
    case True
    then have "findIndex (\<lambda>l. strIncludes l arrow) lines \<noteq> - 1"
      by (simp add: findIndex_none o)
    then have "timeLineIdx lines = findIndex (\<lambda>l. strIncludes l arrow) lines"
      by (simp add: timeLineIdx_def)
    then show ?thesis using True findIndex_iff[of "\<lambda>l. strIncludes l arrow" lines i]
      by (simp add: o)
  next
    case False
    then have "findIndex (\<lambda>l. strIncludes l arrow) lines = - 1"
      by (simp add: findIndex_none o)
    then have "timeLineIdx lines = findIndex testArrow lines"
      by (simp add: timeLineIdx_def)
    then show ?thesis using False findIndex_iff[of testArrow lines i]
      by (simp add: testArrow_iff)
  qed
qed

lemma blockCue_None_char:
  "blockCue b n = None \<longleftrightarrow>
    \<not> (\<exists>l \<in> set (blockLines b). hasArrowVariant l) \<or>
    (\<exists>l. elemAt (blockLines b) (timeLineIdx (blockLines b)) = Some l \<and>
       \<not> hasTimingPattern (normalizeTimeString (Some l)))"
proof (cases "timeLineIdx (blockLines b) = - 1")
  case True
  then have "\<not> (\<exists>l \<in> set (blockLines b). hasArrowVariant l)"
    using timeLineIdx_none_iff by blast
  then show ?thesis using True by (simp add: blockCue_def)
next
  case False
  then obtain l where l: "elemAt (blockLines b) (timeLineIdx (blockLines b)) = Some l"
    "hasArrowVariant l"
    using timeLineIdx_line by blast
  have ex: "\<exists>l \<in> set (blockLines b). hasArrowVariant l"
    using False timeLineIdx_none_iff by blast
  have "blockCue b n = None \<longleftrightarrow> parseTimingLine (Some l) = None"
    using False l(1) by (simp add: blockCue_def Let_def split: option.splits)
  also have "\<dots> \<longleftrightarrow> \<not> hasTimingPattern (normalizeTimeString (Some l))"
    by (rule parseTimingLine_None_iff)
  finally show ?thesis using ex l(1) by simp
qed

lemma blockStep_blockCue: "blockStep b n = Inr (blockCue b n)"
  by (simp add: blockStep_def blockCue_def Let_def split: option.splits)

lemma scanRun_scanBlocks: "scanRun bs cues n = Inr (scanBlocks bs cues n)"
  by (induction bs arbitrary: cues n) (simp_all add: blockStep_blockCue split: option.splits)

lemma parseSrtRun_parseSrt: "parseSrtRun srtText = Inr (parseSrt srtText)"
  by (cases srtText)
    (simp_all add: parseSrtRun_def parseSrt_def scannedCues_def scanRun_scanBlocks)

lemma map_filter_member: "x \<in> set xs \<Longrightarrow> f x = Some y \<Longrightarrow> y \<in> set (List.map_filter f xs)"
  by (force simp: List.map_filter_def)

lemma trim_Nil: "trim [] = []"
  by (simp add: trim_def trimStart_def trimEnd_def)

text \<open>
  C5. \<open>parseSrt\<close> returns a cue list on every input and never throws: the run with
  its throw sites always ends in the list that \<open>parseSrt\<close> computes. \<open>null\<close> and the
  empty string give the empty list. The number of cues is the number of blocks that
  yield one. A block yields none exactly when no line of it has an arrow variant, or
  its timing line, once normalized, has no stamp, arrow and stamp in a row. The timing
  line is the first line in which \<open>-->\<close> occurs, or, when there is none, the first line
  with an arrow variant.
\<close>

theorem parseSrt_skips_unparsable:
  "parseSrtRun srtText = Inr (parseSrt srtText) \<and>
   parseSrt None = [] \<and> parseSrt (Some []) = [] \<and>
   length (parseSrt (Some t)) = length (filter (\<lambda>b. blockCue b 0 \<noteq> None) (srtBlocks t)) \<and>
   (blockCue b n = None \<longleftrightarrow>
      \<not> (\<exists>l \<in> set (blockLines b). hasArrowVariant l) \<or>
      (\<exists>l. elemAt (blockLines b) (timeLineIdx (blockLines b)) = Some l \<and>
         \<not> hasTimingPattern (normalizeTimeString (Some l)))) \<and>
   (timeLineIdx lines = int i \<longleftrightarrow>
      i < length lines \<and>
      (if \<exists>l \<in> set lines. occursIn arrow l
       then occursIn arrow (lines ! i) \<and> (\<forall>j < i. \<not> occursIn arrow (lines ! j))
       else hasArrowVariant (lines ! i) \<and> (\<forall>j < i. \<not> hasArrowVariant (lines ! j))))"
proof -
  have a: "parseSrt None = []" "parseSrt (Some []) = []"
    by (simp_all add: parseSrt_def)
  have c: "length (parseSrt (Some t)) = length (filter (\<lambda>b. blockCue b 0 \<noteq> None) (srtBlocks t))"
    by (simp add: parseSrt_Some reindex_length sortCues_def scannedCues_def scanBlocks_length)
  show ?thesis
    using a c parseSrtRun_parseSrt[of srtText] blockCue_None_char[of b n]
      timeLineIdx_iff[of lines i]
    by (intro conjI) assumption+
qed

theorem parseSrt_skips_unparsable_witness:
  "srtBlocks skipDoc = map (join [LF] \<circ> map ascii)
     [[''1'', ''Hello''], [''2'', ''00:00:02,000 --> 00:00:04,000'', ''World''],
      [''3'', ''00:00:05 --> 00:00:06'', ''Bad''], [''4'', ''00:00:01,000 --> garbage'', ''Worse'']] \<and>
   \<not> (\<exists>l \<in> set (blockLines (join [LF] (map ascii [''1'', ''Hello'']))). hasArrowVariant l) \<and>
   blockCue (join [LF] (map ascii [''1'', ''Hello''])) 0 = None \<and>
   \<not> hasTimingPattern (normalizeTimeString (Some (ascii ''00:00:05 --> 00:00:06''))) \<and>
   blockCue (join [LF] (map ascii [''3'', ''00:00:05 --> 00:00:06'', ''Bad''])) 0 = None \<and>
   \<not> hasTimingPattern (normalizeTimeString (Some (ascii ''00:00:01,000 --> garbage''))) \<and>
   blockCue (join [LF] (map ascii [''4'', ''00:00:01,000 --> garbage'', ''Worse''])) 0 = None \<and>
   hasTimingPattern (normalizeTimeString (Some (ascii ''00:00:02,000 --> 00:00:04,000''))) \<and>
   blockCue (join [LF] (map ascii [''2'', ''00:00:02,000 --> 00:00:04,000'', ''World''])) 0 \<noteq> None \<and>
   length (parseSrt (Some skipDoc)) = 1 \<and>
   parseSrtRun (Some skipDoc) = Inr (parseSrt (Some skipDoc))"
proof -
  let ?b1 = "join [LF] (map ascii [''1'', ''Hello''])"
  let ?b2 = "join [LF] (map ascii [''2'', ''00:00:02,000 --> 00:00:04,000'', ''World''])"
  let ?b3 = "join [LF] (map ascii [''3'', ''00:00:05 --> 00:00:06'', ''Bad''])"
  let ?b4 = "join [LF] (map ascii [''4'', ''00:00:01,000 --> garbage'', ''Worse''])"
  have bl: "srtBlocks skipDoc = map (join [LF] \<circ> map ascii)
     [[''1'', ''Hello''], [''2'', ''00:00:02,000 --> 00:00:04,000'', ''World''],
      [''3'', ''00:00:05 --> 00:00:06'', ''Bad''], [''4'', ''00:00:01,000 --> garbage'', ''Worse'']]"
    by code_simp
  have "\<not> (\<exists>l \<in> set (blockLines ?b1). testArrow l)"
    by code_simp
  then have h1: "\<not> (\<exists>l \<in> set (blockLines ?b1). hasArrowVariant l)"
    using testArrow_iff by blast
  have l3: "elemAt (blockLines ?b3) (timeLineIdx (blockLines ?b3)) = Some (ascii ''00:00:05 --> 00:00:06'')"
    by code_simp
  have "searchTiming (normalizeTimeString (Some (ascii ''00:00:05 --> 00:00:06''))) = None"
    by code_simp
  then have h3: "\<not> hasTimingPattern (normalizeTimeString (Some (ascii ''00:00:05 --> 00:00:06'')))"
    using searchTiming_iff by blast
  have l4: "elemAt (blockLines ?b4) (timeLineIdx (blockLines ?b4)) = Some (ascii ''00:00:01,000 --> garbage'')"
    by code_simp
  have "searchTiming (normalizeTimeString (Some (ascii ''00:00:01,000 --> garbage''))) = None"
    by code_simp
  then have h4: "\<not> hasTimingPattern (normalizeTimeString (Some (ascii ''00:00:01,000 --> garbage'')))"
    using searchTiming_iff by blast
  have l2: "elemAt (blockLines ?b2) (timeLineIdx (blockLines ?b2)) = Some (ascii ''00:00:02,000 --> 00:00:04,000'')"
    by code_simp
  have "searchTiming (normalizeTimeString (Some (ascii ''00:00:02,000 --> 00:00:04,000''))) \<noteq> None"
    by code_simp
  then have h2: "hasTimingPattern (normalizeTimeString (Some (ascii ''00:00:02,000 --> 00:00:04,000'')))"
    using searchTiming_iff by blast
  have "\<exists>l \<in> set (blockLines ?b2). testArrow l"
    by code_simp
  then have a2: "\<exists>l \<in> set (blockLines ?b2). hasArrowVariant l"
    using testArrow_iff by blast
  have n: "length (filter (\<lambda>b. blockCue b 0 \<noteq> None) (srtBlocks skipDoc)) = 1"
    by code_simp
  have c1: "blockCue ?b1 0 = None"
    using parseSrt_skips_unparsable [of "Some skipDoc" skipDoc ?b1 0 "[]" 0] h1 by blast
  have c3: "blockCue ?b3 0 = None"
    using parseSrt_skips_unparsable [of "Some skipDoc" skipDoc ?b3 0 "[]" 0] l3 h3 by blast
  have c4: "blockCue ?b4 0 = None"
    using parseSrt_skips_unparsable [of "Some skipDoc" skipDoc ?b4 0 "[]" 0] l4 h4 by blast
  have c2: "blockCue ?b2 0 \<noteq> None"
    using parseSrt_skips_unparsable [of "Some skipDoc" skipDoc ?b2 0 "[]" 0] l2 h2 a2 by auto
  have ln: "length (parseSrt (Some skipDoc)) = 1"
    using parseSrt_skips_unparsable [of "Some skipDoc" skipDoc ?b1 0 "[]" 0] n by simp
  have rn: "parseSrtRun (Some skipDoc) = Inr (parseSrt (Some skipDoc))"
    using parseSrt_skips_unparsable [of "Some skipDoc" skipDoc ?b1 0 "[]" 0] by blast
  show ?thesis using bl h1 c1 h3 c3 h4 c4 h2 c2 ln rn by blast
qed

text \<open>
  C6. A block of the document whose timing line is its last line and parses leaves a
  cue in the result of \<open>parseSrt\<close>, with the times of that line and the empty text.
\<close>

theorem parseSrt_keeps_empty_caption:
  assumes "b \<in> set (srtBlocks t)"
    and "timeLineIdx (blockLines b) = int (length (blockLines b)) - 1"
    and "parseTimingLine (elemAt (blockLines b) (timeLineIdx (blockLines b))) = Some tm"
  shows "\<exists>c \<in> set (parseSrt (Some t)).
    cueText c = [] \<and> startMs c = tStartMs tm \<and> endMs c = tEndMs tm"
proof -
  have ne: "timeLineIdx (blockLines b) \<noteq> - 1"
  proof
    assume m: "timeLineIdx (blockLines b) = - 1"
    then have "blockLines b = []" using assms(2) by simp
    then show False using assms(3) m by (simp add: elemAt_def parseTimingLine_def)
  qed
  have "drop (nat (timeLineIdx (blockLines b) + 1)) (blockLines b) = []"
    using assms(2) by simp
  then have bc: "blockCue b 0 = Some \<lparr>index = 0, startMs = tStartMs tm, endMs = tEndMs tm, cueText = []\<rparr>"
    using ne assms(3) by (simp add: blockCue_def Let_def trim_Nil)
  have "(tStartMs tm, tEndMs tm, []) \<in> set (List.map_filter (\<lambda>b. map_option payload (blockCue b 0)) (srtBlocks t))"
    using assms(1) bc by (intro map_filter_member[of b]) (simp_all add: payload_def)
  then have "(tStartMs tm, tEndMs tm, []) \<in> set (map payload (scannedCues t))"
    by (simp only: scannedCues_def scanBlocks_payload)
  also have "set (map payload (scannedCues t)) = set (map payload (parseSrt (Some t)))"
    unfolding parseSrt_Some reindex_payload sortCues_def by simp
  finally obtain c where "c \<in> set (parseSrt (Some t))" "payload c = (tStartMs tm, tEndMs tm, [])"
    by auto
  then show ?thesis by (auto simp: payload_def)
qed

theorem parseSrt_keeps_empty_caption_witness:
  "pauseDoc \<in> set (srtBlocks pauseDoc) \<and>
   timeLineIdx (blockLines pauseDoc) = int (length (blockLines pauseDoc)) - 1 \<and>
   parseTimingLine (elemAt (blockLines pauseDoc) (timeLineIdx (blockLines pauseDoc)))
     = Some (Timing 1000 2000 (ascii ''00:00:01,000'') (ascii ''00:00:02,000'')
          (ascii ''00:00:01,000-->00:00:02,000'')) \<and>
   (\<exists>c \<in> set (parseSrt (Some pauseDoc)). cueText c = [] \<and> startMs c = 1000 \<and> endMs c = 2000)"
proof -
  have h1: "pauseDoc \<in> set (srtBlocks pauseDoc)" by code_simp
  have h2: "timeLineIdx (blockLines pauseDoc) = int (length (blockLines pauseDoc)) - 1"
    by code_simp
  have h3: "parseTimingLine (elemAt (blockLines pauseDoc) (timeLineIdx (blockLines pauseDoc)))
     = Some (Timing 1000 2000 (ascii ''00:00:01,000'') (ascii ''00:00:02,000'')
          (ascii ''00:00:01,000-->00:00:02,000''))"
    by code_simp
  show ?thesis using parseSrt_keeps_empty_caption [OF h1 h2 h3] h1 h2 h3 by simp
qed

lemma trimEnd_decomp: "\<exists>w. s = trimEnd s @ w \<and> (\<forall>d \<in> set w. isWhiteSpace d)"
proof -
  have "trimEnd s @ rev (takeWhile isWhiteSpace (rev s))
      = rev (takeWhile isWhiteSpace (rev s) @ dropWhile isWhiteSpace (rev s))"
    by (simp only: trimEnd_def rev_append)
  also have "\<dots> = s"
    by (simp only: takeWhile_dropWhile_id rev_rev_ident)
  finally have "s = trimEnd s @ rev (takeWhile isWhiteSpace (rev s))" by simp
  moreover have "\<forall>d \<in> set (rev (takeWhile isWhiteSpace (rev s))). isWhiteSpace d"
    by (auto dest: set_takeWhileD)
  ultimately show ?thesis by blast
qed

lemma trimEnd_last: "trimEnd s \<noteq> [] \<Longrightarrow> \<not> isWhiteSpace (last (trimEnd s))"
  unfolding trimEnd_def by (simp add: last_rev hd_dropWhile)

lemma trimEnd_id: "s = [] \<or> \<not> isWhiteSpace (last s) \<Longrightarrow> trimEnd s = s"
proof -
  assume "s = [] \<or> \<not> isWhiteSpace (last s)"
  then have "dropWhile isWhiteSpace (rev s) = rev s"
    by (cases "rev s") (auto simp: last_rev[symmetric] simp del: last_rev)
  then show ?thesis by (simp add: trimEnd_def)
qed

lemma join_Cons: "join sep (l # ls) = (if ls = [] then l else l @ sep @ join sep ls)"
  by (cases ls) simp_all

lemma join_last:
  "ls \<noteq> [] \<Longrightarrow> \<forall>x \<in> set ls. x \<noteq> [] \<Longrightarrow> join sep ls \<noteq> [] \<and> last (join sep ls) = last (last ls)"
proof (induction ls)
  case Nil
  then show ?case by simp
next
  case (Cons l ls)
  show ?case
  proof (cases "ls = []")
    case True
    then show ?thesis using Cons.prems by simp
  next
    case False
    then have "join sep ls \<noteq> [] \<and> last (join sep ls) = last (last ls)"
      using Cons by simp
    then show ?thesis using False by (simp add: join_Cons)
  qed
qed

lemma trim_join:
  assumes "\<forall>x \<in> set (l # ls). x \<noteq> [] \<and> \<not> isWhiteSpace (last x)"
  shows "trim (join [LF] (l # ls)) = join [LF] (trimStart l # ls)"
proof -
  define r where "r = (if ls = [] then [] else [LF] @ join [LF] ls)"
  have j: "join [LF] (l # ls) = l @ r" "join [LF] (trimStart l # ls) = trimStart l @ r"
    by (simp_all add: join_Cons r_def)
  have l: "l \<noteq> []" "\<not> isWhiteSpace (last l)" using assms by simp_all
  then have "last l \<in> set l" by simp
  then have ts: "trimStart (l @ r) = trimStart l @ r"
    unfolding trimStart_def using l(2) by (intro dropWhile_append1)
  have ne: "trimStart l \<noteq> []"
    unfolding trimStart_def using l \<open>last l \<in> set l\<close> by (auto simp: dropWhile_eq_Nil_conv)
  have "l = takeWhile isWhiteSpace l @ trimStart l" by (simp add: trimStart_def)
  then have "last l = last (takeWhile isWhiteSpace l @ trimStart l)" by simp
  then have ll: "last (trimStart l) = last l" using ne by simp
  have "\<not> isWhiteSpace (last (trimStart l @ r))"
  proof (cases "ls = []")
    case True
    then show ?thesis using ll l(2) by (simp add: r_def)
  next
    case False
    have "\<forall>x \<in> set ls. x \<noteq> []" using assms by simp
    then have "join [LF] ls \<noteq> [] \<and> last (join [LF] ls) = last (last ls)"
      using False by (intro join_last)
    moreover have "\<not> isWhiteSpace (last (last ls))" using assms False by simp
    ultimately show ?thesis using False by (simp add: r_def)
  qed
  then have "trimEnd (trimStart l @ r) = trimStart l @ r"
    by (intro trimEnd_id) simp
  then show ?thesis by (simp add: trim_def j ts)
qed

lemma blockLines_clean:
  assumes "x \<in> set (blockLines b)" "x \<noteq> []"
  shows "\<not> isWhiteSpace (last x)"
  using assms trimEnd_last by (auto simp: blockLines_def)

text \<open>
  C7, as stated, fails: the caption line \<open>"  Hi"\<close> keeps its indentation in the lines
  of the block, but the cue text starts with \<open>"Hi"\<close>, because the joined text is trimmed.
\<close>

theorem cueText_indentation_counterexample:
  "blockLines indentDoc ! 2 = ascii ''  Hi'' \<and>
   map cueText (parseSrt (Some indentDoc)) = [join [LF] (map ascii [''Hi'', ''  there''])] \<and>
   map cueText (parseSrt (Some indentDoc)) \<noteq> [join [LF] (map ascii [''  Hi'', ''  there''])]"
  by code_simp

text \<open>
  C7, amended. Each line of a block is its raw line without trailing white space;
  leading white space stays. The cue text is the non-empty lines after the timing line,
  joined by line feeds, with the leading white space of the first of them removed: the
  indentation of the second and later caption lines is preserved, that of the first is
  not.
\<close>

theorem cueText_first_line_trimmed:
  assumes "blockCue b n = Some c"
  shows "cueText c =
      (case filter (\<lambda>l. l \<noteq> []) (drop (nat (timeLineIdx (blockLines b) + 1)) (blockLines b)) of
         [] \<Rightarrow> []
       | l # ls \<Rightarrow> join [LF] (trimStart l # ls)) \<and>
    (\<forall>x \<in> set (blockLines b). \<exists>raw \<in> set (splitLines b). \<exists>w.
        raw = x @ w \<and> (\<forall>d \<in> set w. isWhiteSpace d))"
proof -
  define body where
    "body = filter (\<lambda>l. l \<noteq> []) (drop (nat (timeLineIdx (blockLines b) + 1)) (blockLines b))"
  have ct: "cueText c = trim (join [LF] body)"
    using assms by (auto simp: blockCue_def Let_def body_def split: if_splits option.splits)
  have cl: "\<forall>x \<in> set body. x \<noteq> [] \<and> \<not> isWhiteSpace (last x)"
    using blockLines_clean[of _ b] by (auto simp: body_def dest: in_set_dropD)
  have 1: "cueText c = (case body of [] \<Rightarrow> [] | l # ls \<Rightarrow> join [LF] (trimStart l # ls))"
  proof (cases body)
    case Nil
    then show ?thesis using ct by (simp add: trim_Nil)
  next
    case (Cons l ls)
    then show ?thesis using ct cl trim_join[of l ls] by simp
  qed
  have 2: "\<exists>raw \<in> set (splitLines b). \<exists>w. raw = x @ w \<and> (\<forall>d \<in> set w. isWhiteSpace d)"
    if "x \<in> set (blockLines b)" for x
  proof -
    from that obtain raw where r: "raw \<in> set (splitLines b)" "x = trimEnd raw"
      by (auto simp: blockLines_def)
    then show ?thesis using trimEnd_decomp[of raw] by auto
  qed
  show ?thesis using 1 2 unfolding body_def by blast
qed


theorem cueText_first_line_trimmed_witness:
  "blockCue indentDoc 0 = Some \<lparr>index = 0, startMs = 0, endMs = 1000,
      cueText = join [LF] (map ascii [''Hi'', ''  there''])\<rparr> \<and>
   filter (\<lambda>l. l \<noteq> []) (drop (nat (timeLineIdx (blockLines indentDoc) + 1)) (blockLines indentDoc))
     = map ascii [''  Hi'', ''  there''] \<and>
   join [LF] (map ascii [''Hi'', ''  there''])
     = join [LF] (trimStart (ascii ''  Hi'') # [ascii ''  there''])"
proof -
  have h: "blockCue indentDoc 0 = Some \<lparr>index = 0, startMs = 0, endMs = 1000,
      cueText = join [LF] (map ascii [''Hi'', ''  there''])\<rparr>"
    by code_simp
  have b: "filter (\<lambda>l. l \<noteq> []) (drop (nat (timeLineIdx (blockLines indentDoc) + 1)) (blockLines indentDoc))
     = map ascii [''  Hi'', ''  there'']"
    by code_simp
  show ?thesis using cueText_first_line_trimmed [OF h] h b by simp
qed


end
